theory Spec2Isabelle
  imports Main "HOL-Library.Sublist"
begin

section \<open>Values of the host language\<close>

subsection \<open>Numbers\<close>

text \<open>
  A number of the host language is a double. The model holds the doubles with an
  integer value, the two infinities and \<open>NaN\<close>; \<open>Num n\<close> is the double whose value is
  the integer \<open>n\<close>.
\<close>

datatype jsnum = Num int | PosInfinity | NegInfinity | NaN

text \<open>The number of binary digits of an integer that is not negative.\<close>

function bit_length :: "int \<Rightarrow> nat" where
  "bit_length n = (if n \<le> 0 then 0 else Suc (bit_length (n div 2)))"
  by pat_completeness auto
termination
  by (relation "measure nat") auto

declare bit_length.simps [simp del]

text \<open>
  The double nearest to an integer that is not negative, ties to the even significand:
  an integer below \<open>2^53\<close> is a double; a larger one keeps its 53 leading binary digits,
  rounded; when the rounded value reaches \<open>2^1024\<close> the result is \<open>Infinity\<close>.
\<close>

definition to_double :: "int \<Rightarrow> jsnum" where
  "to_double n =
     (if n < 2 ^ 53 then Num n
      else
        let e = bit_length n - 53;
            q = n div 2 ^ e;
            r = n mod 2 ^ e;
            q' = (if 2 * r > 2 ^ e \<or> (2 * r = 2 ^ e \<and> odd q) then q + 1 else q)
        in if e + bit_length q' > 1024 then PosInfinity else Num (q' * 2 ^ e))"

text \<open>
  \<open>Math.pow(2, attempt)\<close> for an integer \<open>attempt\<close> that is not negative: the power
  while it is a double, \<open>Infinity\<close> from \<open>2^1024\<close> on.
\<close>

definition pow2 :: "nat \<Rightarrow> jsnum" where
  "pow2 attempt = (if attempt < 1024 then Num (2 ^ attempt) else PosInfinity)"

text \<open>
  \<open>delay * p\<close> for a double \<open>delay\<close> with an integer value and \<open>p\<close> a result of \<open>pow2\<close>:
  the product with a power of two is exact until it leaves the range of the doubles;
  zero times \<open>Infinity\<close> is \<open>NaN\<close>.
\<close>

fun times_pow2 :: "int \<Rightarrow> jsnum \<Rightarrow> jsnum" where
  "times_pow2 delay (Num p) =
     (if \<bar>delay * p\<bar> < 2 ^ 1024 then Num (delay * p)
      else if 0 < delay then PosInfinity else NegInfinity)"
| "times_pow2 delay PosInfinity =
     (if delay = 0 then NaN else if 0 < delay then PosInfinity else NegInfinity)"
| "times_pow2 delay NegInfinity =
     (if delay = 0 then NaN else if 0 < delay then NegInfinity else PosInfinity)"
| "times_pow2 delay NaN = NaN"

text \<open>\<open>Math.min(x, m)\<close> for a double \<open>m\<close> with an integer value.\<close>

fun math_min :: "jsnum \<Rightarrow> int \<Rightarrow> jsnum" where
  "math_min (Num x) m = Num (min x m)"
| "math_min PosInfinity m = Num m"
| "math_min NegInfinity m = NegInfinity"
| "math_min NaN m = NaN"

subsection \<open>Plain data\<close>

text \<open>
  A value of the host language that is plain data: what \<open>JSON.parse\<close> returns, what a
  property access on such a value yields, and a thrown value as far as its data
  properties go (an \<open>Error\<close> object is the object of its properties). A number is
  modelled when it is an integer below \<open>2^53\<close> in magnitude.
\<close>

datatype jsval =
    JUndefined
  | JNull
  | JBool bool
  | JNum int
  | JStr string
  | JArr "jsval list"
  | JObj "(string \<times> jsval) list"

text \<open>
  The exception the code of the repository raises by itself: calling a method that a
  value does not have is a \<open>TypeError\<close>.
\<close>

datatype thrown = TypeError

fun truthy :: "jsval \<Rightarrow> bool" where
  "truthy JUndefined = False"
| "truthy JNull = False"
| "truthy (JBool b) = b"
| "truthy (JNum n) = (n \<noteq> 0)"
| "truthy (JStr s) = (s \<noteq> [])"
| "truthy (JArr xs) = True"
| "truthy (JObj kvs) = True"

text \<open>\<open>a || b\<close>\<close>

definition js_or :: "jsval \<Rightarrow> jsval \<Rightarrow> jsval" where
  "js_or a b = (if truthy a then a else b)"

text \<open>
  \<open>v[key]\<close> for a value that is neither \<open>null\<close> nor \<open>undefined\<close> and one of the keys the
  code reads (\<open>summaryAnalysis\<close>, \<open>summary\<close>, \<open>detailedFeedback\<close>, \<open>detail\<close>, \<open>retryable\<close>,
  \<open>message\<close>), none of which a prototype of plain data defines: for an object the last
  entry with that key, else \<open>undefined\<close>.
\<close>

fun js_get :: "jsval \<Rightarrow> string \<Rightarrow> jsval" where
  "js_get (JObj kvs) key = (case map_of (rev kvs) key of Some v \<Rightarrow> v | None \<Rightarrow> JUndefined)"
| "js_get v key = JUndefined"

text \<open>\<open>v?.[key]\<close>\<close>

definition js_opt_get :: "jsval \<Rightarrow> string \<Rightarrow> jsval" where
  "js_opt_get v key = (if v = JNull \<or> v = JUndefined then JUndefined else js_get v key)"


section \<open>Resilient call wrapper: \<open>retryWithBackoff\<close> (retryUtils)\<close>

text \<open>\<open>String.prototype.includes\<close>: the needle occurs at some position.\<close>

fun str_includes :: "string \<Rightarrow> string \<Rightarrow> bool" where
  "str_includes [] needle = (needle = [])"
| "str_includes (c # cs) needle = (prefix needle (c # cs) \<or> str_includes cs needle)"

text \<open>
  The condition \<open>error?.message?.includes(needle)\<close>, for the value \<open>msg\<close> of
  \<open>error?.message\<close>: absent, it is \<open>undefined\<close>; a string has the method of strings, an
  array the method of arrays (some element is the needle); any other value has no
  method \<open>includes\<close>, and the call throws.
\<close>

fun message_includes :: "jsval \<Rightarrow> string \<Rightarrow> thrown + bool" where
  "message_includes JUndefined needle = Inr False"
| "message_includes JNull needle = Inr False"
| "message_includes (JStr m) needle = Inr (str_includes m needle)"
| "message_includes (JArr xs) needle = Inr (JStr needle \<in> set xs)"
| "message_includes (JBool b) needle = Inl TypeError"
| "message_includes (JNum n) needle = Inl TypeError"
| "message_includes (JObj kvs) needle = Inl TypeError"

text \<open>
  The default value of the option \<open>retryable\<close>, applied to a caught value (\<open>error: any\<close>):
  \<open>Inr\<close> what it returns, \<open>Inl\<close> when it throws.
\<close>

definition defaultRetryable :: "jsval \<Rightarrow> thrown + bool" where
  "defaultRetryable error =
     (if js_opt_get error ''retryable'' = JBool True then Inr True
      else case message_includes (js_opt_get error ''message'') ''Network connection lost'' of
             Inl t \<Rightarrow> Inl t
           | Inr True \<Rightarrow> Inr True
           | Inr False \<Rightarrow>
               (case message_includes (js_opt_get error ''message'') ''timeout'' of
                  Inl t \<Rightarrow> Inl t
                | Inr True \<Rightarrow> Inr True
                | Inr False \<Rightarrow> Inr False))"

text \<open>
  \<open>RetryOptions\<close>: every field is optional. The numbers are doubles with an integer
  value; a predicate returns a boolean or throws a \<open>TypeError\<close>, as the default one does.
\<close>

record RetryOptions =
  maxRetries :: "int option"
  initialDelay :: "int option"
  maxDelay :: "int option"
  retryable :: "(jsval \<Rightarrow> thrown + bool) option"

text \<open>The destructuring defaults of \<open>retryWithBackoff\<close>.\<close>

definition opt_maxRetries :: "RetryOptions \<Rightarrow> int" where
  "opt_maxRetries options = (case maxRetries options of None \<Rightarrow> 3 | Some n \<Rightarrow> n)"

definition opt_initialDelay :: "RetryOptions \<Rightarrow> int" where
  "opt_initialDelay options = (case initialDelay options of None \<Rightarrow> 1000 | Some d \<Rightarrow> d)"

definition opt_maxDelay :: "RetryOptions \<Rightarrow> int" where
  "opt_maxDelay options = (case maxDelay options of None \<Rightarrow> 10000 | Some d \<Rightarrow> d)"

definition opt_retryable :: "RetryOptions \<Rightarrow> jsval \<Rightarrow> thrown + bool" where
  "opt_retryable options = (case retryable options of None \<Rightarrow> defaultRetryable | Some p \<Rightarrow> p)"

text \<open>
  How the promise returned by \<open>retryWithBackoff\<close> settles: resolved with a value,
  rejected with a value that was thrown (\<open>undefined\<close> for the final \<open>throw lastError\<close>
  when no attempt was made), or rejected with the \<open>TypeError\<close> of the predicate.
\<close>

datatype 'a settled = Resolved 'a | Rejected jsval | Rejected_TypeError

text \<open>
  One run of \<open>retryWithBackoff\<close>: how it settled, how many times \<open>fn\<close> was invoked, the
  delays handed to \<open>setTimeout\<close> in order, and the state the operation was left in.
\<close>

record ('a, 's) retry_run =
  outcome :: "'a settled"
  calls :: nat
  waits :: "jsnum list"
  final :: 's

text \<open>
  The operation \<open>fn\<close> is a closure with effects: it is a function from the state it acts
  on to its result (\<open>Inl\<close> the value it rejects with, \<open>Inr\<close> the resolved value) and the
  new state. The \<open>for\<close> loop, entered with the loop variable \<open>attempt\<close>; the predicate
  is not called on the last attempt, and an exception it throws leaves the \<open>catch\<close>
  block and rejects the promise.
\<close>

function retry_loop ::
  "('s \<Rightarrow> (jsval + 'a) \<times> 's) \<Rightarrow> int \<Rightarrow> int \<Rightarrow> int \<Rightarrow> (jsval \<Rightarrow> thrown + bool)
     \<Rightarrow> int \<Rightarrow> jsval \<Rightarrow> 's \<Rightarrow> ('a, 's) retry_run" where
  "retry_loop fn maxR delay maxD rt attempt lastError s =
     (if attempt \<le> maxR then
        (case fn s of
           (Inr v, s') \<Rightarrow> \<lparr>outcome = Resolved v, calls = 1, waits = [], final = s'\<rparr>
         | (Inl error, s') \<Rightarrow>
             if attempt = maxR
             then \<lparr>outcome = Rejected error, calls = 1, waits = [], final = s'\<rparr>
             else
               (case rt error of
                  Inl TypeError \<Rightarrow>
                    \<lparr>outcome = Rejected_TypeError, calls = 1, waits = [], final = s'\<rparr>
                | Inr False \<Rightarrow> \<lparr>outcome = Rejected error, calls = 1, waits = [], final = s'\<rparr>
                | Inr True \<Rightarrow>
                    let backoffDelay = math_min (times_pow2 delay (pow2 (nat attempt))) maxD;
                        r = retry_loop fn maxR delay maxD rt (attempt + 1) error s'
                    in r\<lparr>calls := Suc (calls r), waits := backoffDelay # waits r\<rparr>))
      else \<lparr>outcome = Rejected lastError, calls = 0, waits = [], final = s\<rparr>)"
  by pat_completeness auto
termination
  by (relation "measure (\<lambda>(fn, maxR, delay, maxD, rt, attempt, lastError, s). nat (maxR + 1 - attempt))")
     auto

declare retry_loop.simps [simp del]

definition retryWithBackoff ::
  "('s \<Rightarrow> (jsval + 'a) \<times> 's) \<Rightarrow> RetryOptions \<Rightarrow> 's \<Rightarrow> ('a, 's) retry_run" where
  "retryWithBackoff fn options s =
     retry_loop fn (opt_maxRetries options) (opt_initialDelay options) (opt_maxDelay options)
       (opt_retryable options) 0 JUndefined s"

text \<open>The state of the operation after \<open>k\<close> invocations.\<close>

fun state_after :: "('s \<Rightarrow> (jsval + 'a) \<times> 's) \<Rightarrow> nat \<Rightarrow> 's \<Rightarrow> 's" where
  "state_after fn 0 s = s"
| "state_after fn (Suc k) s = state_after fn k (snd (fn s))"



subsection \<open>Retry options of the three stages\<close>

text \<open>The options literal in \<open>analyzeTranscript\<close> (transcriptAnalyzer.ts).\<close>

definition analyzeTranscript_retryOptions :: RetryOptions where
  "analyzeTranscript_retryOptions =
     \<lparr>maxRetries = Some 2, initialDelay = Some 500, maxDelay = Some 5000, retryable = None\<rparr>"

text \<open>The options literal in \<open>generateSummary\<close> (scenarioGenerator.ts, summary analyzer).\<close>

definition generateSummary_retryOptions :: RetryOptions where
  "generateSummary_retryOptions =
     \<lparr>maxRetries = Some 2, initialDelay = Some 500, maxDelay = Some 5000, retryable = None\<rparr>"

text \<open>The options literal in \<open>analyzeDetails\<close> (transcriptDetailAgent.ts).\<close>

definition analyzeDetails_retryOptions :: RetryOptions where
  "analyzeDetails_retryOptions =
     \<lparr>maxRetries = Some 2, initialDelay = Some 500, maxDelay = Some 5000, retryable = None\<rparr>"

subsection \<open>Operations used as examples\<close>

text \<open>An \<open>Error\<close> object with the given message.\<close>

definition Error_with :: "string \<Rightarrow> jsval" where
  "Error_with m = JObj [(''message'', JStr m)]"

definition always_lost :: "nat \<Rightarrow> (jsval + unit) \<times> nat" where
  "always_lost k = (Inl (Error_with ''Network connection lost.''), Suc k)"



definition lost_then_ok :: "nat \<Rightarrow> (jsval + string) \<times> nat" where
  "lost_then_ok k =
     (if k < 4 then Inl (JObj [(''retryable'', JBool True)]) else Inr ''done'', Suc k)"

definition wide_options :: RetryOptions where
  "wide_options = \<lparr>maxRetries = Some 6, initialDelay = Some 500, maxDelay = Some 3000, retryable = None\<rparr>"


section \<open>Strings and regular expressions of the host language\<close>

text \<open>
  A string is the list of its code units. The model covers the code units below 256,
  which \<^typ>\<open>char\<close> holds; on these, white space, case mapping and the character
  classes are as defined below.
\<close>

text \<open>White space and line terminators: what \<open>\s\<close> matches and \<open>trim\<close> strips.\<close>

definition is_space :: "char \<Rightarrow> bool" where
  "is_space c = (of_char c \<in> {9, 10, 11, 12, 13, 32, 160 :: nat})"

definition is_line_terminator :: "char \<Rightarrow> bool" where
  "is_line_terminator c = (of_char c \<in> {10, 13 :: nat})"

definition is_digit :: "char \<Rightarrow> bool" where
  "is_digit c = (48 \<le> (of_char c :: nat) \<and> (of_char c :: nat) \<le> 57)"

text \<open>\<open>\w\<close>: letters, digits and the underscore.\<close>

definition is_word :: "char \<Rightarrow> bool" where
  "is_word c =
     (let n = of_char c :: nat
      in (97 \<le> n \<and> n \<le> 122) \<or> (65 \<le> n \<and> n \<le> 90) \<or> (48 \<le> n \<and> n \<le> 57) \<or> n = 95)"

text \<open>
  \<open>Canonicalize\<close> of a case-insensitive pattern: the upper-case form when it is one
  code unit; a code unit from 128 on is never mapped below 128.
\<close>

definition canonicalize :: "char \<Rightarrow> char" where
  "canonicalize c =
     (let n = of_char c :: nat
      in if (97 \<le> n \<and> n \<le> 122) \<or> (224 \<le> n \<and> n \<le> 254 \<and> n \<noteq> 247)
         then char_of (n - 32) else c)"

definition toLowerCase_char :: "char \<Rightarrow> char" where
  "toLowerCase_char c =
     (let n = of_char c :: nat
      in if (65 \<le> n \<and> n \<le> 90) \<or> (192 \<le> n \<and> n \<le> 222 \<and> n \<noteq> 215)
         then char_of (n + 32) else c)"

definition toLowerCase :: "string \<Rightarrow> string" where
  "toLowerCase s = map toLowerCase_char s"

text \<open>
  \<open>toUpperCase\<close> of one character. The parser applies it to the first character of a
  match of \<open>\w+\<close> only, where it changes the letters \<open>a\<close> to \<open>z\<close> and nothing else.
\<close>

definition toUpperCase_char :: "char \<Rightarrow> char" where
  "toUpperCase_char c =
     (let n = of_char c :: nat in if 97 \<le> n \<and> n \<le> 122 then char_of (n - 32) else c)"

definition trim :: "string \<Rightarrow> string" where
  "trim s = rev (dropWhile is_space (rev (dropWhile is_space s)))"

text \<open>\<open>s.substring(0, n)\<close>.\<close>

definition substring0 :: "string \<Rightarrow> nat \<Rightarrow> string" where
  "substring0 s n = take n s"

text \<open>
  \<open>s.split(sep)\<close> for a non-empty separator string, read from left to right: \<open>cur\<close> is
  the piece being read, in reverse.
\<close>

fun split_loop :: "string \<Rightarrow> string \<Rightarrow> string \<Rightarrow> string list" where
  "split_loop sep cur [] = [rev cur]"
| "split_loop sep cur (c # cs) =
     (if prefix sep (c # cs)
      then rev cur # split_loop sep [] (drop (length sep - 1) cs)
      else split_loop sep (c # cur) cs)"

definition split :: "string \<Rightarrow> string \<Rightarrow> string list" where
  "split s sep = split_loop sep [] s"

text \<open>
  The mathematical value of a string of decimal digits, and \<open>Number(t)\<close> and
  \<open>parseInt(t, 10)\<close> for such a string: the double nearest to that value. (For more than
  20 significant digits the language lets an implementation round the digits after the
  20th; the model rounds the exact value, as the engines in use do.)
\<close>

definition digits_value :: "string \<Rightarrow> int" where
  "digits_value t = foldl (\<lambda>acc c. 10 * acc + (int (of_char c) - 48)) 0 t"

definition Number_of_digits :: "string \<Rightarrow> jsnum" where
  "Number_of_digits t = to_double (digits_value t)"

subsection \<open>Patterns\<close>

text \<open>The members of a character class.\<close>

datatype cclass = CChar char | CSpace | CNotSpace | CDigit | CWord

text \<open>
  The patterns the repository uses: a pattern character, a class \<open>[...]\<close>, a negated
  class \<open>[^...]\<close>, sequence, alternative, the empty pattern, greedy and lazy star, a
  capturing group with its number, a back reference, a lookahead \<open>(?=...)\<close>, and the
  assertions \<open>^\<close> and \<open>$\<close>.
\<close>

datatype regex =
    Chr char
  | Cls "cclass list"
  | NCls "cclass list"
  | Seq regex regex
  | Alt regex regex
  | Eps
  | Star regex
  | LazyStar regex
  | Group nat regex
  | Backref nat
  | Lookahead regex
  | Bol
  | Eol

text \<open>\<open>r+\<close>, \<open>r?\<close>, a sequence of patterns, and a literal text.\<close>

definition Plus :: "regex \<Rightarrow> regex" where
  "Plus r = Seq r (Star r)"

definition Opt :: "regex \<Rightarrow> regex" where
  "Opt r = Alt r Eps"

fun seq :: "regex list \<Rightarrow> regex" where
  "seq [] = Eps"
| "seq [r] = r"
| "seq (r # rs) = Seq r (seq rs)"

definition lit :: "string \<Rightarrow> regex" where
  "lit s = seq (map Chr s)"

text \<open>The flags \<open>i\<close> and \<open>m\<close>; \<open>g\<close> belongs to the method that runs the pattern.\<close>

record flags =
  ignoreCase :: bool
  multiline :: bool

definition char_eq :: "flags \<Rightarrow> char \<Rightarrow> char \<Rightarrow> bool" where
  "char_eq f a b = (if ignoreCase f then canonicalize a = canonicalize b else a = b)"

fun class_item :: "flags \<Rightarrow> cclass \<Rightarrow> char \<Rightarrow> bool" where
  "class_item f (CChar a) ch = char_eq f a ch"
| "class_item f CSpace ch = is_space ch"
| "class_item f CNotSpace ch = (\<not> is_space ch)"
| "class_item f CDigit ch = is_digit ch"
| "class_item f CWord ch = is_word ch"

definition in_class :: "flags \<Rightarrow> cclass list \<Rightarrow> char \<Rightarrow> bool" where
  "in_class f cl ch = list_ex (\<lambda>a. class_item f a ch) cl"

text \<open>
  A state of the matcher: the input not yet consumed, and the captures (entry \<open>k\<close> for
  group \<open>k\<close>, \<open>None\<close> while it has not taken part).
\<close>

type_synonym mstate = "string \<times> string option list"

text \<open>
  The backtracking matcher: \<open>ms f s r x\<close> lists the states in which a match of \<open>r\<close> from
  state \<open>x\<close> can end, in the order in which backtracking tries them; \<open>s\<close> is the whole
  input. A greedy star tries one more round first, a lazy star tries to stop first; a
  round of a star that consumes nothing is refused; a lookahead keeps the captures of
  its first match and consumes nothing.
\<close>

function ms :: "flags \<Rightarrow> string \<Rightarrow> regex \<Rightarrow> mstate \<Rightarrow> mstate list" where
  "ms f s (Chr c) x =
     (case fst x of ch # rest \<Rightarrow> if char_eq f c ch then [(rest, snd x)] else [] | [] \<Rightarrow> [])"
| "ms f s (Cls cl) x =
     (case fst x of ch # rest \<Rightarrow> if in_class f cl ch then [(rest, snd x)] else [] | [] \<Rightarrow> [])"
| "ms f s (NCls cl) x =
     (case fst x of ch # rest \<Rightarrow> if in_class f cl ch then [] else [(rest, snd x)] | [] \<Rightarrow> [])"
| "ms f s (Seq a b) x = concat (map (ms f s b) (ms f s a x))"
| "ms f s (Alt a b) x = ms f s a x @ ms f s b x"
| "ms f s Eps x = [x]"
| "ms f s (Star r) x =
     concat (map (ms f s (Star r)) (filter (\<lambda>y. length (fst y) < length (fst x)) (ms f s r x)))
       @ [x]"
| "ms f s (LazyStar r) x =
     x # concat (map (ms f s (LazyStar r))
                  (filter (\<lambda>y. length (fst y) < length (fst x)) (ms f s r x)))"
| "ms f s (Group k r) x =
     map (\<lambda>y. (fst y, (snd y)[k := Some (take (length (fst x) - length (fst y)) (fst x))]))
       (ms f s r x)"
| "ms f s (Backref k) x =
     (case snd x ! k of
        None \<Rightarrow> [x]
      | Some t \<Rightarrow>
          if length t \<le> length (fst x) \<and> list_all2 (char_eq f) t (take (length t) (fst x))
          then [(drop (length t) (fst x), snd x)] else [])"
| "ms f s (Lookahead r) x = (case ms f s r x of [] \<Rightarrow> [] | y # _ \<Rightarrow> [(fst x, snd y)])"
| "ms f s Bol x =
     (let i = length s - length (fst x)
      in if i = 0 \<or> (multiline f \<and> is_line_terminator (s ! (i - 1))) then [x] else [])"
| "ms f s Eol x =
     (case fst x of [] \<Rightarrow> [x]
      | ch # _ \<Rightarrow> if multiline f \<and> is_line_terminator ch then [x] else [])"
  by pat_completeness auto
termination
  by (relation "measures [\<lambda>(f, s, r, x). size r, \<lambda>(f, s, r, x). length (fst x)]") auto

text \<open>
  A successful match: where it starts, where it ends, and the array the host language
  returns (entry 0 the matched text, entry \<open>k\<close> the text of group \<open>k\<close>).
\<close>

record rmatch =
  index :: nat
  end_index :: nat
  groups :: "string option list"

text \<open>
  The search of \<open>exec\<close>: the first position from \<open>i\<close> on at which the pattern matches,
  with the first way of matching there; \<open>n\<close> is the number of groups.
\<close>

function search_from :: "flags \<Rightarrow> regex \<Rightarrow> nat \<Rightarrow> string \<Rightarrow> nat \<Rightarrow> rmatch option" where
  "search_from f r n s i =
     (if length s < i then None
      else case ms f s r (drop i s, replicate (Suc n) None) of
             [] \<Rightarrow> search_from f r n s (Suc i)
           | y # _ \<Rightarrow>
               Some \<lparr>index = i, end_index = length s - length (fst y),
                     groups = (snd y)[0 := Some (take (length s - length (fst y) - i) (drop i s))]\<rparr>)"
  by pat_completeness auto
termination
  by (relation "measure (\<lambda>(f, r, n, s, i). Suc (length s) - i)") auto

declare search_from.simps [simp del]

text \<open>A pattern as the code writes it: the pattern, its flags, the number of its groups.\<close>

record RegExp =
  source :: regex
  re_flags :: flags
  ngroups :: nat

text \<open>\<open>re.exec(s)\<close> with \<open>re.lastIndex = lastIndex\<close>.\<close>

definition exec :: "RegExp \<Rightarrow> string \<Rightarrow> nat \<Rightarrow> rmatch option" where
  "exec re s lastIndex = search_from (re_flags re) (source re) (ngroups re) s lastIndex"

text \<open>\<open>s.match(re)\<close> for a pattern without the flag \<open>g\<close>: the array of the first match.\<close>

definition str_match :: "string \<Rightarrow> RegExp \<Rightarrow> string option list option" where
  "str_match s re = map_option groups (exec re s 0)"

text \<open>\<open>m[k]\<close> for a group that takes part in every match of its pattern.\<close>

definition grp :: "string option list \<Rightarrow> nat \<Rightarrow> string" where
  "grp m k = (case m ! k of Some t \<Rightarrow> t | None \<Rightarrow> [])"


subsection \<open>The matcher consumes input\<close>

text \<open>A pattern that consumes at least one character whenever it matches.\<close>

fun nonnull :: "regex \<Rightarrow> bool" where
  "nonnull (Chr c) = True"
| "nonnull (Cls cl) = True"
| "nonnull (NCls cl) = True"
| "nonnull (Seq a b) = (nonnull a \<or> nonnull b)"
| "nonnull (Alt a b) = (nonnull a \<and> nonnull b)"
| "nonnull (Group k r) = nonnull r"
| "nonnull _ = False"

declare ms.simps(7,8) [simp del]

lemma ms_length: "y \<in> set (ms f s r x) \<Longrightarrow> length (fst y) \<le> length (fst x)"
proof (induction f s r x arbitrary: y rule: ms.induct)
  case (4 f s a b x)
  then obtain z where z: "z \<in> set (ms f s a x)" "y \<in> set (ms f s b z)" by auto
  from "4.IH"(1)[OF z(1)] "4.IH"(2)[OF z(1) z(2)] show ?case by simp
next
  case (7 f s r x)
  show ?case
  proof (cases "y = x")
    case False
    with "7.prems" obtain z where z: "z \<in> set (ms f s r x)" "length (fst z) < length (fst x)"
      "y \<in> set (ms f s (Star r) z)" by (subst (asm) ms.simps(7)) auto
    from "7.IH"(2)[of z y] z show ?thesis by simp
  qed simp
next
  case (8 f s r x)
  show ?case
  proof (cases "y = x")
    case False
    with "8.prems" obtain z where z: "z \<in> set (ms f s r x)" "length (fst z) < length (fst x)"
      "y \<in> set (ms f s (LazyStar r) z)" by (subst (asm) ms.simps(8)) auto
    from "8.IH"(2)[of z y] z show ?thesis by simp
  qed simp
next
  case (11 f s r x)
  then show ?case by (auto split: list.splits)
qed (auto split: list.splits if_splits option.splits simp: Let_def)

lemma ms_nonnull:
  "nonnull r \<Longrightarrow> y \<in> set (ms f s r x) \<Longrightarrow> length (fst y) < length (fst x)"
proof (induction r arbitrary: x y)
  case (Seq a b)
  from Seq.prems(2) obtain z where z: "z \<in> set (ms f s a x)" "y \<in> set (ms f s b z)" by auto
  show ?case
  proof (cases "nonnull a")
    case True
    from Seq.IH(1)[OF True z(1)] ms_length[OF z(2)] show ?thesis by simp
  next
    case False
    with Seq.prems(1) have "nonnull b" by simp
    from Seq.IH(2)[OF this z(2)] ms_length[OF z(1)] show ?thesis by simp
  qed
qed (auto split: list.splits if_splits)

lemma search_from_bounds:
  "search_from f r n s i = Some m \<Longrightarrow>
     i \<le> index m \<and> index m \<le> end_index m \<and> end_index m \<le> length s
     \<and> (nonnull r \<longrightarrow> index m < end_index m)"
proof (induction f r n s i rule: search_from.induct)
  case (1 f r n s i)
  show ?case
  proof (cases "length s < i")
    case True
    with "1.prems" show ?thesis by (simp add: search_from.simps[of f r n s i])
  next
    case le: False
    show ?thesis
    proof (cases "ms f s r (drop i s, replicate (Suc n) None)")
      case Nil
      with le "1.prems" have "search_from f r n s (Suc i) = Some m"
        by (simp add: search_from.simps[of f r n s i])
      from "1.IH"[OF le Nil this] show ?thesis by simp
    next
      case (Cons y ys)
      then have y: "y \<in> set (ms f s r (drop i s, replicate (Suc n) None))" by simp
      from ms_length[OF y] have l: "length (fst y) \<le> length s - i" by simp
      have nn: "nonnull r \<Longrightarrow> length (fst y) < length s - i" using ms_nonnull[OF _ y] by simp
      from le Cons "1.prems" have m: "m = \<lparr>index = i, end_index = length s - length (fst y),
                     groups = (snd y)[0 := Some (take (length s - length (fst y) - i) (drop i s))]\<rparr>"
        by (simp add: search_from.simps[of f r n s i])
      show ?thesis using l nn le unfolding m by auto
    qed
  qed
qed

subsection \<open>Methods that run a pattern with the flag \<open>g\<close>\<close>

text \<open>
  \<open>s.replace(re, replacer)\<close> for a pattern with the flag \<open>g\<close>: every match from left to
  right, each search starting where the last match ended (one further after an empty
  match); \<open>replacer\<close> maps the array of a match to its replacement.
\<close>

function replace_loop ::
  "RegExp \<Rightarrow> (string option list \<Rightarrow> string) \<Rightarrow> string \<Rightarrow> nat \<Rightarrow> nat \<Rightarrow> string" where
  "replace_loop re replacer s lastIndex nextSourcePosition =
     (case exec re s lastIndex of
        None \<Rightarrow> drop nextSourcePosition s
      | Some m \<Rightarrow>
          take (index m - nextSourcePosition) (drop nextSourcePosition s) @ replacer (groups m)
            @ replace_loop re replacer s
                (if end_index m = index m then Suc (end_index m) else end_index m) (end_index m))"
  by pat_completeness auto
termination
proof (relation "measure (\<lambda>(re, replacer, s, lastIndex, nextSourcePosition). Suc (length s) - lastIndex)")
  show "wf (measure (\<lambda>(re, replacer, s, lastIndex, nextSourcePosition). Suc (length s) - lastIndex))"
    by simp
next
  fix re :: RegExp and replacer :: "string option list \<Rightarrow> string" and s :: string
    and lastIndex nextSourcePosition :: nat and m :: rmatch
  assume "exec re s lastIndex = Some m"
  then have "lastIndex \<le> index m \<and> index m \<le> end_index m \<and> end_index m \<le> length s"
    unfolding exec_def using search_from_bounds by blast
  then show "((re, replacer, s, if end_index m = index m then Suc (end_index m) else end_index m,
               end_index m),
             (re, replacer, s, lastIndex, nextSourcePosition))
            \<in> measure (\<lambda>(re, replacer, s, lastIndex, nextSourcePosition). Suc (length s) - lastIndex)"
    by auto
qed

declare replace_loop.simps [simp del]

definition replace_all :: "string \<Rightarrow> RegExp \<Rightarrow> (string option list \<Rightarrow> string) \<Rightarrow> string" where
  "replace_all s re replacer = replace_loop re replacer s 0 0"

section \<open>Report parser: \<open>Parser\<close> (frontend/lib/parser.ts)\<close>

record Segment =
  title :: string
  content :: string

text \<open>
  The category of a score entry is a string, with one exception: the alias table is an
  object literal, so \<open>CATEGORY_ALIASES["constructor"]\<close> is the function \<open>Object\<close> that the
  table inherits, and the parser stores that as the category.
\<close>

datatype category_value = Name string | ObjectConstructor

record ScoreEntry =
  category :: category_value
  score :: jsnum

record ParsedResult =
  summary :: "string option"
  feedback :: "string option"
  suggestions :: "string option"
  segments :: "Segment list"
  scores :: "ScoreEntry list"

definition defaultScores :: "ScoreEntry list" where
  "defaultScores =
     [\<lparr>category = Name ''Empathy'', score = Num 85\<rparr>,
      \<lparr>category = Name ''Clarity'', score = Num 90\<rparr>,
      \<lparr>category = Name ''Flexibility'', score = Num 80\<rparr>,
      \<lparr>category = Name ''Assertiveness'', score = Num 75\<rparr>,
      \<lparr>category = Name ''Active Listening'', score = Num 88\<rparr>,
      \<lparr>category = Name ''Conflict Management'', score = Num 99\<rparr>]"

definition CATEGORY_ALIASES :: "(string \<times> string) list" where
  "CATEGORY_ALIASES =
     [(''empathy'', ''Empathy''),
      (''clarity'', ''Clarity''),
      (''openmindness'', ''Flexibility''),
      (''openmindedness'', ''Flexibility''),
      (''open mindness'', ''Flexibility''),
      (''open mind'', ''Flexibility''),
      (''flexibility'', ''Flexibility''),
      (''flexible'', ''Flexibility''),
      (''assertiveness'', ''Assertiveness''),
      (''persuasion'', ''Persuasion''),
      (''activelistening'', ''Active Listening''),
      (''active listening'', ''Active Listening''),
      (''objectionhandling'', ''Objection Handling''),
      (''objection handling'', ''Objection Handling''),
      (''closingability'', ''Closing Ability''),
      (''closing ability'', ''Closing Ability''),
      (''conflictmanagement'', ''Conflict Management''),
      (''conflict management'', ''Conflict Management'')]"

text \<open>\<open>CATEGORY_ALIASES[rawCat]\<close>: an own key of the table, or the inherited property.\<close>

definition alias_lookup :: "string \<Rightarrow> category_value option" where
  "alias_lookup rawCat =
     (case map_of CATEGORY_ALIASES rawCat of
        Some c \<Rightarrow> Some (Name c)
      | None \<Rightarrow> if rawCat = ''constructor'' then Some ObjectConstructor else None)"

subsection \<open>The patterns of the parser\<close>

text \<open>\<open>\s\<close>\<close>

definition white :: regex where
  "white = Cls [CSpace]"

text \<open>\<open>[\s\S]\<close>\<close>

definition anychar :: regex where
  "anychar = Cls [CSpace, CNotSpace]"

definition flags_i :: flags where
  "flags_i = \<lparr>ignoreCase = True, multiline = False\<rparr>"

definition flags_none :: flags where
  "flags_none = \<lparr>ignoreCase = False, multiline = False\<rparr>"

definition flags_im :: flags where
  "flags_im = \<lparr>ignoreCase = True, multiline = True\<rparr>"

text \<open>\<open>/##\s*HEADER\s*([\s\S]*?)(?=##|$)/i\<close> for a section header.\<close>

definition section_regex :: "string \<Rightarrow> RegExp" where
  "section_regex header =
     \<lparr>source = seq [lit ''##'', Star white, lit header, Star white, Group 1 (LazyStar anychar),
                     Lookahead (Alt (lit ''##'') Eol)],
      re_flags = flags_i, ngroups = 1\<rparr>"

definition overviewRegex :: RegExp where
  "overviewRegex = section_regex ''CONVERSATION OVERVIEW''"

definition feedbackRegex :: RegExp where
  "feedbackRegex = section_regex ''USER PERFORMANCE ANALYSIS''"

definition suggestionsRegex :: RegExp where
  "suggestionsRegex = section_regex ''IMPROVEMENT RECOMMENDATIONS''"

definition ratingRegex :: RegExp where
  "ratingRegex = section_regex ''RATING''"

text \<open>\<open>/^\*+/g\<close>\<close>

definition starsRegex :: RegExp where
  "starsRegex = \<lparr>source = seq [Bol, Plus (Chr (CHR ''*''))], re_flags = flags_none, ngroups = 0\<rparr>"

text \<open>\<open>/-?\s*([^:]+):\s*(\d+)/i\<close>\<close>

definition scoreLineRegex :: RegExp where
  "scoreLineRegex =
     \<lparr>source = seq [Opt (Chr (CHR ''-'')), Star white, Group 1 (Plus (NCls [CChar (CHR '':'')])),
                     Chr (CHR '':''), Star white, Group 2 (Plus (Cls [CDigit]))],
      re_flags = flags_i, ngroups = 2\<rparr>"

text \<open>\<open>/[\s\-_]+/g\<close>\<close>

definition separatorsRegex :: RegExp where
  "separatorsRegex =
     \<lparr>source = Plus (Cls [CSpace, CChar (CHR ''-''), CChar (CHR ''_'')]),
      re_flags = flags_none, ngroups = 0\<rparr>"

text \<open>\<open>/<segment:\s*([^>]+)>([\s\S]*?)<\/segment:\s*\1>/gi\<close>\<close>

definition segRegex1 :: RegExp where
  "segRegex1 =
     \<lparr>source = seq [lit ''<segment:'', Star white, Group 1 (Plus (NCls [CChar (CHR ''>'')])),
                     Chr (CHR ''>''), Group 2 (LazyStar anychar),
                     lit ''</segment:'', Star white, Backref 1, Chr (CHR ''>'')],
      re_flags = flags_i, ngroups = 2\<rparr>"

text \<open>\<open>/<segment:\s*([^>]+)>([\s\S]*?)<\/segment:[^>]+>/gi\<close>\<close>

definition segRegex2 :: RegExp where
  "segRegex2 =
     \<lparr>source = seq [lit ''<segment:'', Star white, Group 1 (Plus (NCls [CChar (CHR ''>'')])),
                     Chr (CHR ''>''), Group 2 (LazyStar anychar),
                     lit ''</segment:'', Plus (NCls [CChar (CHR ''>'')]), Chr (CHR ''>'')],
      re_flags = flags_i, ngroups = 2\<rparr>"

text \<open>\<open>/<segment:\s*([^>]+)>([\s\S]*?)<\/segment>/gi\<close>\<close>

definition segRegex3 :: RegExp where
  "segRegex3 =
     \<lparr>source = seq [lit ''<segment:'', Star white, Group 1 (Plus (NCls [CChar (CHR ''>'')])),
                     Chr (CHR ''>''), Group 2 (LazyStar anychar), lit ''</segment>''],
      re_flags = flags_i, ngroups = 2\<rparr>"

text \<open>\<open>/Segment:\s*([^\n]+)\n([\s\S]*?)(?=Segment:|$)/gi\<close>\<close>

definition plainTextRegex :: RegExp where
  "plainTextRegex =
     \<lparr>source = seq [lit ''Segment:'', Star white, Group 1 (Plus (NCls [CChar (CHR 0x0A)])),
                     Chr (CHR 0x0A), Group 2 (LazyStar anychar),
                     Lookahead (Alt (lit ''Segment:'') Eol)],
      re_flags = flags_i, ngroups = 2\<rparr>"

text \<open>\<open>/^(\s*)(\w+):/gim\<close>\<close>

definition speakerRegex :: RegExp where
  "speakerRegex =
     \<lparr>source = seq [Bol, Group 1 (Star white), Group 2 (Plus (Cls [CWord])), Chr (CHR '':'')],
      re_flags = flags_im, ngroups = 2\<rparr>"

subsection \<open>Summary, feedback and suggestions\<close>

definition truthy_string :: "string option \<Rightarrow> bool" where
  "truthy_string v = (case v of None \<Rightarrow> False | Some t \<Rightarrow> t \<noteq> [])"

text \<open>\<open>summaryText.split('##')[0]\<close>\<close>

definition before_first_marker :: "string \<Rightarrow> string" where
  "before_first_marker summaryText = (case split summaryText ''##'' of p # _ \<Rightarrow> p | [] \<Rightarrow> [])"

definition extract_summary :: "string \<Rightarrow> ParsedResult \<Rightarrow> ParsedResult" where
  "extract_summary summaryText result =
     (case str_match summaryText overviewRegex of
        Some summaryMatch \<Rightarrow> result\<lparr>summary := Some (trim (grp summaryMatch 1))\<rparr>
      | None \<Rightarrow>
          if trim summaryText \<noteq> [] then
            result\<lparr>summary :=
              Some (if trim (before_first_marker summaryText) \<noteq> []
                    then trim (before_first_marker summaryText)
                    else substring0 summaryText 500)\<rparr>
          else result)"

definition extract_feedback :: "string \<Rightarrow> ParsedResult \<Rightarrow> ParsedResult" where
  "extract_feedback summaryText result =
     (case str_match summaryText feedbackRegex of
        Some feedbackMatch \<Rightarrow> result\<lparr>feedback := Some (trim (grp feedbackMatch 1))\<rparr>
      | None \<Rightarrow>
          if trim summaryText \<noteq> [] \<and> \<not> truthy_string (summary result)
          then result\<lparr>feedback := Some (substring0 summaryText 500)\<rparr>
          else result)"

definition extract_suggestions :: "string \<Rightarrow> ParsedResult \<Rightarrow> ParsedResult" where
  "extract_suggestions summaryText result =
     (case str_match summaryText suggestionsRegex of
        Some suggestionsMatch \<Rightarrow> result\<lparr>suggestions := Some (trim (grp suggestionsMatch 1))\<rparr>
      | None \<Rightarrow> result)"

subsection \<open>Scores\<close>

text \<open>The lines of the RATING block: leading stars removed, trimmed, empty lines dropped.\<close>

definition rating_lines :: "string \<Rightarrow> string list" where
  "rating_lines block =
     filter (\<lambda>l. l \<noteq> [])
       (map (\<lambda>l. trim (replace_all l starsRegex (\<lambda>_. []))) (split block [CHR 0x0A]))"

text \<open>The body of the loop over the lines: \<open>parsedScores\<close> grows by one entry on a match.\<close>

definition parse_score_line :: "string \<Rightarrow> ScoreEntry list \<Rightarrow> ScoreEntry list" where
  "parse_score_line line parsedScores =
     (case str_match line scoreLineRegex of
        None \<Rightarrow> parsedScores
      | Some m \<Rightarrow>
          let rawCat = replace_all (toLowerCase (trim (grp m 1))) separatorsRegex (\<lambda>_. []);
              canonicalCat = (case alias_lookup rawCat of Some c \<Rightarrow> c
                              | None \<Rightarrow> Name (trim (grp m 1)))
          in parsedScores @ [\<lparr>category = canonicalCat, score = Number_of_digits (grp m 2)\<rparr>])"

definition parse_score_lines :: "string list \<Rightarrow> ScoreEntry list" where
  "parse_score_lines lines = foldl (\<lambda>parsedScores line. parse_score_line line parsedScores) [] lines"

text \<open>
  \<open>defaultMap\<close>: \<open>forEach\<close> over the entries with their indices, each \<open>set\<close> overwriting an
  earlier one for the same category.
\<close>

definition build_defaultMap :: "ScoreEntry list \<Rightarrow> (category_value \<rightharpoonup> nat)" where
  "build_defaultMap entries =
     foldl (\<lambda>defaultMap (s, i). defaultMap(category s \<mapsto> i)) Map.empty
       (zip entries [0 ..< length entries])"

text \<open>The body of the loop over \<open>parsedScores\<close>: overwrite at the index, or push.\<close>

definition merge_score :: "(category_value \<rightharpoonup> nat) \<Rightarrow> ScoreEntry list \<Rightarrow> ScoreEntry \<Rightarrow> ScoreEntry list" where
  "merge_score defaultMap result_scores ps =
     (case defaultMap (category ps) of
        Some idx \<Rightarrow> result_scores[idx := \<lparr>category = category ps, score = score ps\<rparr>]
      | None \<Rightarrow> result_scores @ [ps])"

definition extract_scores :: "string \<Rightarrow> ParsedResult \<Rightarrow> ParsedResult" where
  "extract_scores summaryText result =
     (case str_match summaryText ratingRegex of
        None \<Rightarrow> result
      | Some ratingMatch \<Rightarrow>
          let parsedScores = parse_score_lines (rating_lines (grp ratingMatch 1));
              defaultMap = build_defaultMap (scores result)
          in result\<lparr>scores := foldl (merge_score defaultMap) (scores result) parsedScores\<rparr>)"

subsection \<open>Segments\<close>

text \<open>
  The replacer of the speaker labels: \<open>ws\<close>, two stars, the speaker with its first
  character in upper case, a colon, two stars.
\<close>

definition bold_speaker :: "string option list \<Rightarrow> string" where
  "bold_speaker m =
     (let ws = grp m 1; speaker = grp m 2
      in ws @ ''**'' @ map toUpperCase_char (take 1 speaker) @ drop 1 speaker @ '':**'')"

definition bold_speakers :: "string \<Rightarrow> string" where
  "bold_speakers text = replace_all text speakerRegex bold_speaker"

text \<open>
  The four loops of the parser, in the order of the source, each with its pattern and
  with the name it assigns to \<open>usedRegex\<close>.
\<close>

datatype strategy = Regex1 | Regex2 | Regex3 | PlainText

fun strategy_regex :: "strategy \<Rightarrow> RegExp" where
  "strategy_regex Regex1 = segRegex1"
| "strategy_regex Regex2 = segRegex2"
| "strategy_regex Regex3 = segRegex3"
| "strategy_regex PlainText = plainTextRegex"

fun strategy_name :: "strategy \<Rightarrow> string" where
  "strategy_name Regex1 = ''regex1''"
| "strategy_name Regex2 = ''regex2''"
| "strategy_name Regex3 = ''regex3''"
| "strategy_name PlainText = ''plainText''"

text \<open>
  The variables the four loops share: the segments pushed so far (\<open>result.segments\<close>),
  \<open>segmentCount\<close> and \<open>usedRegex\<close>.
\<close>

record seg_state =
  segs :: "Segment list"
  segmentCount :: nat
  usedRegex :: string

text \<open>
  One \<open>while ((segMatch = re.exec(detailText)) !== null)\<close> loop, entered with
  \<open>re.lastIndex = lastIndex\<close>. The plain-text loop skips a match whose trimmed content
  has fewer than 10 characters; the other three loops push every match.
\<close>

lemma strategy_regex_nonnull: "nonnull (source (strategy_regex st))"
  by (cases st)
     (simp_all add: segRegex1_def segRegex2_def segRegex3_def plainTextRegex_def lit_def)

lemma exec_strategy_progress:
  assumes "exec (strategy_regex st) detailText lastIndex = Some segMatch"
  shows "lastIndex < end_index segMatch \<and> end_index segMatch \<le> length detailText"
proof -
  from assms have "lastIndex \<le> index segMatch \<and> index segMatch \<le> end_index segMatch
      \<and> end_index segMatch \<le> length detailText
      \<and> (nonnull (source (strategy_regex st)) \<longrightarrow> index segMatch < end_index segMatch)"
    unfolding exec_def by (rule search_from_bounds)
  with strategy_regex_nonnull[of st] show ?thesis by simp
qed

function seg_loop :: "strategy \<Rightarrow> string \<Rightarrow> nat \<Rightarrow> seg_state \<Rightarrow> seg_state" where
  "seg_loop st detailText lastIndex \<sigma> =
     (case exec (strategy_regex st) detailText lastIndex of
        None \<Rightarrow> \<sigma>
      | Some segMatch \<Rightarrow>
          let title0 = trim (grp (groups segMatch) 1);
              content0 = trim (grp (groups segMatch) 2)
          in if st = PlainText \<and> length content0 < 10
             then seg_loop st detailText (end_index segMatch) \<sigma>
             else seg_loop st detailText (end_index segMatch)
                    (\<sigma>\<lparr>segs := segs \<sigma> @ [\<lparr>title = title0, content = bold_speakers content0\<rparr>],
                       segmentCount := segmentCount \<sigma> + 1,
                       usedRegex := strategy_name st\<rparr>))"
  by pat_completeness auto
termination
  by (relation "measure (\<lambda>(st, detailText, lastIndex, \<sigma>). length detailText - lastIndex)")
     (auto dest!: exec_strategy_progress simp del: strategy_regex.simps)

declare seg_loop.simps [simp del]

text \<open>A strategy: its loop, run with a fresh pattern (\<open>lastIndex = 0\<close>).\<close>

definition run_strategy :: "strategy \<Rightarrow> string \<Rightarrow> seg_state \<Rightarrow> seg_state" where
  "run_strategy st detailText \<sigma> = seg_loop st detailText 0 \<sigma>"

text \<open>The four loops in sequence, each but the first guarded by \<open>segmentCount === 0\<close>.\<close>

definition extract_segments :: "string \<Rightarrow> seg_state" where
  "extract_segments detailText =
     (let \<sigma> = \<lparr>segs = [], segmentCount = 0, usedRegex = []\<rparr>;
          \<sigma> = run_strategy Regex1 detailText \<sigma>;
          \<sigma> = (if segmentCount \<sigma> = 0 then run_strategy Regex2 detailText \<sigma> else \<sigma>);
          \<sigma> = (if segmentCount \<sigma> = 0 then run_strategy Regex3 detailText \<sigma> else \<sigma>);
          \<sigma> = (if segmentCount \<sigma> = 0 then run_strategy PlainText detailText \<sigma> else \<sigma>)
      in \<sigma>)"

subsection \<open>The parser on the two texts\<close>

text \<open>
  The parser from the line that reads \<open>summaryText\<close> on, for a summary text and a detail
  text that are strings. \<open>default_table\<close> is the content of the module's array
  \<open>defaultScores\<close>, which the result copies entry by entry.
\<close>

definition initial_result :: "ScoreEntry list \<Rightarrow> ParsedResult" where
  "initial_result default_table =
     \<lparr>summary = None, feedback = None, suggestions = None, segments = [],
      scores = map (\<lambda>s. \<lparr>category = category s, score = score s\<rparr>) default_table\<rparr>"

definition Parser_texts :: "string \<Rightarrow> string \<Rightarrow> ParsedResult" where
  "Parser_texts summaryText detailText =
     (let result = initial_result defaultScores;
          result = extract_summary summaryText result;
          result = extract_feedback summaryText result;
          result = extract_suggestions summaryText result;
          result = extract_scores summaryText result;
          result = result\<lparr>segments := segs (extract_segments detailText)\<rparr>
      in result)"

subsection \<open>The entry point\<close>

function nat_digits :: "nat \<Rightarrow> string" where
  "nat_digits n =
     (if n < 10 then [char_of (48 + n)] else nat_digits (n div 10) @ [char_of (48 + n mod 10)])"
  by pat_completeness auto
termination
  by (relation "measure id") auto

declare nat_digits.simps [simp del]

definition Number_toString :: "int \<Rightarrow> string" where
  "Number_toString n = (if n < 0 then CHR ''-'' # nat_digits (nat (- n)) else nat_digits (nat n))"

text \<open>\<open>pieces.join(",")\<close>, where a piece that cannot be converted makes the whole fail.\<close>

fun join_comma :: "string option list \<Rightarrow> string option" where
  "join_comma [] = Some []"
| "join_comma [p] = p"
| "join_comma (p # ps) =
     (case p of None \<Rightarrow> None
      | Some t \<Rightarrow> (case join_comma ps of None \<Rightarrow> None | Some u \<Rightarrow> Some (t @ CHR '','' # u)))"

text \<open>
  \<open>ToString\<close>; \<open>None\<close> when it throws a \<open>TypeError\<close>, which it does for an object with
  an own property \<open>toString\<close> (a value from JSON is never callable). An array is joined
  with commas, \<open>null\<close> and \<open>undefined\<close> elements as empty strings.
\<close>

fun ToString :: "jsval \<Rightarrow> string option" where
  "ToString JUndefined = Some ''undefined''"
| "ToString JNull = Some ''null''"
| "ToString (JBool b) = Some (if b then ''true'' else ''false'')"
| "ToString (JNum n) = Some (Number_toString n)"
| "ToString (JStr s) = Some s"
| "ToString (JObj kvs) =
     (if ''toString'' \<in> set (map fst kvs) then None else Some ''[object Object]'')"
| "ToString (JArr xs) =
     join_comma (map (\<lambda>x. if x = JUndefined \<or> x = JNull then Some [] else ToString x) xs)"

text \<open>
  The parser from the line that reads \<open>summaryText\<close> on. A summary text that is not a
  string has no method \<open>match\<close>. A detail text that is not a string is converted by
  \<open>exec\<close>; after the loops its method \<open>includes\<close> is called, which only strings and
  arrays have, and, when no segment was found and it is not empty, \<open>substring\<close>, which
  only strings have.
\<close>

definition Parser_body :: "jsval \<Rightarrow> jsval \<Rightarrow> thrown + ParsedResult" where
  "Parser_body summaryText detailText =
     (case summaryText of
        JStr s \<Rightarrow>
          (case detailText of
             JStr d \<Rightarrow> Inr (Parser_texts s d)
           | JArr xs \<Rightarrow>
               (case ToString (JArr xs) of
                  None \<Rightarrow> Inl TypeError
                | Some d \<Rightarrow>
                    if segmentCount (extract_segments d) = 0 \<and> xs \<noteq> [] then Inl TypeError
                    else Inr (Parser_texts s d))
           | _ \<Rightarrow> Inl TypeError)
      | _ \<Rightarrow> Inl TypeError)"

text \<open>
  \<open>Parser(rawText)\<close>. \<open>JSON_parse\<close> is the \<open>JSON.parse\<close> of the host: \<open>None\<close> when it
  throws. Inside the \<open>try\<close>, the log statement reads \<open>parsed.summaryAnalysis\<close>, which
  throws for \<open>null\<close>; the \<open>catch\<close> returns the initial result.
\<close>

definition Parser :: "(string \<Rightarrow> jsval option) \<Rightarrow> string \<Rightarrow> thrown + ParsedResult" where
  "Parser JSON_parse rawText =
     (let result = initial_result defaultScores
      in case JSON_parse rawText of
           None \<Rightarrow> Inr result
         | Some parsed \<Rightarrow>
             if parsed = JNull \<or> parsed = JUndefined then Inr result
             else
               let summaryText = js_or (js_or (js_get parsed ''summaryAnalysis'')
                                         (js_get parsed ''summary'')) (JStr []);
                   detailText = js_or (js_or (js_get parsed ''detailedFeedback'')
                                        (js_get parsed ''detail'')) (JStr [])
               in Parser_body summaryText detailText)"

subsection \<open>The parser with the module's array in a store\<close>

text \<open>
  The module keeps the array \<open>defaultScores\<close>, and the parser updates the array
  \<open>result.scores\<close> in place. A store holds the arrays of score entries, an array's
  address being its position; the module's array is the first that is allocated.
\<close>

type_synonym store = "ScoreEntry list list"

definition defaultScores_ref :: nat where
  "defaultScores_ref = 0"

text \<open>The store after the module has been loaded, and any store that extends it.\<close>

definition module_loaded :: "store \<Rightarrow> bool" where
  "module_loaded h = (defaultScores_ref < length h \<and> h ! defaultScores_ref = defaultScores)"

text \<open>A new array: \<open>defaultScores.map(...)\<close> builds one, entry by entry.\<close>

definition new_array :: "store \<Rightarrow> ScoreEntry list \<Rightarrow> nat \<times> store" where
  "new_array h entries = (length h, h @ [entries])"

text \<open>\<open>result.scores[idx] = {...}\<close> or \<open>result.scores.push(ps)\<close> on the array at \<open>ref\<close>.\<close>

definition store_merge_score ::
  "(category_value \<rightharpoonup> nat) \<Rightarrow> nat \<Rightarrow> store \<Rightarrow> ScoreEntry \<Rightarrow> store" where
  "store_merge_score defaultMap ref h ps = h[ref := merge_score defaultMap (h ! ref) ps]"

definition extract_scores_run :: "string \<Rightarrow> nat \<Rightarrow> store \<Rightarrow> store" where
  "extract_scores_run summaryText ref h =
     (case str_match summaryText ratingRegex of
        None \<Rightarrow> h
      | Some ratingMatch \<Rightarrow>
          let parsedScores = parse_score_lines (rating_lines (grp ratingMatch 1));
              defaultMap = build_defaultMap (h ! ref)
          in foldl (store_merge_score defaultMap ref) h parsedScores)"

text \<open>
  The initial result: its \<open>scores\<close> is the new array at \<open>ref\<close>; the field of the record is
  filled in from the store when the parser returns.
\<close>

definition Parser_texts_run :: "string \<Rightarrow> string \<Rightarrow> nat \<Rightarrow> store \<Rightarrow> ParsedResult \<times> store" where
  "Parser_texts_run summaryText detailText ref h =
     (let result = \<lparr>summary = None, feedback = None, suggestions = None, segments = [],
                     scores = []\<rparr>;
          result = extract_summary summaryText result;
          result = extract_feedback summaryText result;
          result = extract_suggestions summaryText result;
          h = extract_scores_run summaryText ref h;
          result = result\<lparr>segments := segs (extract_segments detailText)\<rparr>
      in (result\<lparr>scores := h ! ref\<rparr>, h))"

definition Parser_body_run ::
  "jsval \<Rightarrow> jsval \<Rightarrow> nat \<Rightarrow> store \<Rightarrow> (thrown + ParsedResult) \<times> store" where
  "Parser_body_run summaryText detailText ref h =
     (case summaryText of
        JStr s \<Rightarrow>
          (case detailText of
             JStr d \<Rightarrow> (case Parser_texts_run s d ref h of (r, h') \<Rightarrow> (Inr r, h'))
           | JArr xs \<Rightarrow>
               (case ToString (JArr xs) of
                  None \<Rightarrow> (Inl TypeError, extract_scores_run s ref h)
                | Some d \<Rightarrow>
                    (case Parser_texts_run s d ref h of
                       (r, h') \<Rightarrow>
                         if segmentCount (extract_segments d) = 0 \<and> xs \<noteq> [] then (Inl TypeError, h')
                         else (Inr r, h')))
           | _ \<Rightarrow> (Inl TypeError, extract_scores_run s ref h))
      | _ \<Rightarrow> (Inl TypeError, h))"

definition Parser_run ::
  "(string \<Rightarrow> jsval option) \<Rightarrow> string \<Rightarrow> store \<Rightarrow> (thrown + ParsedResult) \<times> store" where
  "Parser_run JSON_parse rawText h0 =
     (case new_array h0 (map (\<lambda>s. \<lparr>category = category s, score = score s\<rparr>)
                             (h0 ! defaultScores_ref)) of
        (ref, h) \<Rightarrow>
          (case JSON_parse rawText of
             None \<Rightarrow>
               (Inr \<lparr>summary = None, feedback = None, suggestions = None, segments = [],
                     scores = h ! ref\<rparr>, h)
           | Some parsed \<Rightarrow>
               if parsed = JNull \<or> parsed = JUndefined
               then (Inr \<lparr>summary = None, feedback = None, suggestions = None, segments = [],
                          scores = h ! ref\<rparr>, h)
               else
                 let summaryText = js_or (js_or (js_get parsed ''summaryAnalysis'')
                                           (js_get parsed ''summary'')) (JStr []);
                     detailText = js_or (js_or (js_get parsed ''detailedFeedback'')
                                          (js_get parsed ''detail'')) (JStr [])
                 in Parser_body_run summaryText detailText ref h))"

subsection \<open>The segment strategies as the specification words them\<close>

text \<open>The successive matches of a strategy's pattern, from \<open>lastIndex\<close> on.\<close>

function strategy_matches :: "strategy \<Rightarrow> string \<Rightarrow> nat \<Rightarrow> rmatch list" where
  "strategy_matches st detailText lastIndex =
     (case exec (strategy_regex st) detailText lastIndex of
        None \<Rightarrow> []
      | Some m \<Rightarrow> m # strategy_matches st detailText (end_index m))"
  by pat_completeness auto
termination
  by (relation "measure (\<lambda>(st, detailText, lastIndex). length detailText - lastIndex)")
     (auto dest!: exec_strategy_progress simp del: strategy_regex.simps)

declare strategy_matches.simps [simp del]

definition segment_of :: "rmatch \<Rightarrow> Segment" where
  "segment_of m =
     \<lparr>title = trim (grp (groups m) 1), content = bold_speakers (trim (grp (groups m) 2))\<rparr>"

text \<open>
  What a strategy yields on a detail text: a segment for each match, where the
  plain-text strategy discards the matches whose trimmed content has fewer than 10
  characters.
\<close>

definition strategy_yield :: "strategy \<Rightarrow> string \<Rightarrow> Segment list" where
  "strategy_yield st detailText =
     map segment_of
       (if st = PlainText
        then filter (\<lambda>m. 10 \<le> length (trim (grp (groups m) 2))) (strategy_matches st detailText 0)
        else strategy_matches st detailText 0)"

subsection \<open>Names used in the statements\<close>

text \<open>The categories of the table \<open>defaultScores\<close>, in its order.\<close>

definition default_categories :: "category_value list" where
  "default_categories =
     [Name ''Empathy'', Name ''Clarity'', Name ''Flexibility'', Name ''Assertiveness'',
      Name ''Active Listening'', Name ''Conflict Management'']"


text \<open>\<open>strategy_yield\<close> for a loop that is entered at \<open>lastIndex\<close>.\<close>

definition yield_from :: "strategy \<Rightarrow> string \<Rightarrow> nat \<Rightarrow> Segment list" where
  "yield_from st d L = map segment_of
       (if st = PlainText
        then filter (\<lambda>m. 10 \<le> length (trim (grp (groups m) 2))) (strategy_matches st d L)
        else strategy_matches st d L)"

text \<open>
  A group that stands outside every star and in both branches of every alternative it
  is under: the pattern sets it in every match.
\<close>

fun sets_group :: "nat \<Rightarrow> regex \<Rightarrow> bool" where
  "sets_group k (Group j r) = (j = k \<or> sets_group k r)"
| "sets_group k (Seq a b) = (sets_group k a \<or> sets_group k b)"
| "sets_group k (Alt a b) = (sets_group k a \<and> sets_group k b)"
| "sets_group k (Lookahead r) = sets_group k r"
| "sets_group k _ = False"


text \<open>
  The entries the RATING block of a summary text gives (\<open>parsedScores\<close>), none when the
  text has no such block.
\<close>

definition rating_entries :: "string \<Rightarrow> ScoreEntry list" where
  "rating_entries summaryText =
     (case str_match summaryText ratingRegex of
        None \<Rightarrow> []
      | Some ratingMatch \<Rightarrow> parse_score_lines (rating_lines (grp ratingMatch 1)))"

text \<open>
  A table merged with entries, said without indices: every entry of the table, replaced
  by the last of the entries with its category when there is one; then the entries
  with a category the table does not have, in their order.
\<close>

definition merged_scores :: "ScoreEntry list \<Rightarrow> ScoreEntry list \<Rightarrow> ScoreEntry list" where
  "merged_scores table entries =
     map (\<lambda>d. case find (\<lambda>p. category p = category d) (rev entries) of
                 None \<Rightarrow> d | Some p \<Rightarrow> p) table
     @ filter (\<lambda>p. category p \<notin> set (map category table)) entries"

text \<open>A number that is a non-negative integer or \<open>Infinity\<close>.\<close>

fun nonneg_number :: "jsnum \<Rightarrow> bool" where
  "nonneg_number (Num n) = (0 \<le> n)"
| "nonneg_number PosInfinity = True"
| "nonneg_number NegInfinity = False"
| "nonneg_number NaN = False"

text \<open>Two texts that are equal up to the case of their letters.\<close>

definition same_letters :: "string \<Rightarrow> string \<Rightarrow> bool" where
  "same_letters a b = list_all2 (\<lambda>x y. canonicalize x = canonicalize y) a b"

text \<open>
  The four forms of a segment in the detail text, in parts. An occurrence is an opening
  text \<open>ot\<close>, white space \<open>w\<close>, the title text \<open>g1\<close>, a delimiter, the content text \<open>g2\<close>,
  and a closing: for strategy 1 the text \<open>ct\<close> (\<open></segment:\<close>), white space \<open>v\<close>, the
  title again (\<open>b\<close>, equal to \<open>g1\<close> up to the case of the letters) and \<open>></segment>\<close>'s
  final \<open>>\<close>; for strategy 2 \<open>ct\<close>, any non-empty text \<open>b\<close> without \<open>>\<close>, and \<open>>\<close>; for
  strategy 3 the text \<open>ct\<close> (\<open></segment>\<close>); for the plain-text strategy nothing, but the
  text after the occurrence (\<open>post\<close>) is empty or starts with \<open>Segment:\<close>. The fixed
  words are compared up to the case of their letters.
\<close>

fun opener :: "strategy \<Rightarrow> string" where
  "opener PlainText = ''Segment:''"
| "opener _ = ''<segment:''"

fun delimiter :: "strategy \<Rightarrow> char" where
  "delimiter PlainText = CHR 0x0A"
| "delimiter _ = CHR ''>''"

fun closer_text :: "strategy \<Rightarrow> string \<Rightarrow> string \<Rightarrow> string \<Rightarrow> string" where
  "closer_text Regex1 ct v b = ct @ v @ b @ ''>''"
| "closer_text Regex2 ct v b = ct @ b @ ''>''"
| "closer_text Regex3 ct v b = ct"
| "closer_text PlainText ct v b = []"

fun closer_ok :: "strategy \<Rightarrow> string \<Rightarrow> string \<Rightarrow> string \<Rightarrow> string \<Rightarrow> string \<Rightarrow> bool" where
  "closer_ok Regex1 g1 ct v b post =
     (same_letters ''</segment:'' ct \<and> list_all is_space v \<and> same_letters g1 b)"
| "closer_ok Regex2 g1 ct v b post =
     (same_letters ''</segment:'' ct \<and> b \<noteq> [] \<and> CHR ''>'' \<notin> set b)"
| "closer_ok Regex3 g1 ct v b post = same_letters ''</segment>'' ct"
| "closer_ok PlainText g1 ct v b post = (post = [] \<or> same_letters ''Segment:'' (take 8 post))"

definition occurrence ::
  "strategy \<Rightarrow> string \<Rightarrow> string \<Rightarrow> string \<Rightarrow> string \<Rightarrow> string \<Rightarrow> string \<Rightarrow> string \<Rightarrow> string" where
  "occurrence st ot w g1 g2 ct v b = ot @ w @ g1 @ [delimiter st] @ g2 @ closer_text st ct v b"

definition well_formed ::
  "strategy \<Rightarrow> string \<Rightarrow> string \<Rightarrow> string \<Rightarrow> string \<Rightarrow> string \<Rightarrow> string \<Rightarrow> string \<Rightarrow> bool" where
  "well_formed st ot w g1 ct v b post \<longleftrightarrow>
     same_letters (opener st) ot \<and> list_all is_space w \<and> g1 \<noteq> [] \<and> delimiter st \<notin> set g1
     \<and> closer_ok st g1 ct v b post"

subsection \<open>Names used in the proofs\<close>

text \<open>A character that \<open>Canonicalize\<close> maps to itself and nothing else to.\<close>

definition caseless :: "char \<Rightarrow> bool" where
  "caseless c =
     (let n = of_char c :: nat
      in \<not> ((65 \<le> n \<and> n \<le> 90) \<or> (97 \<le> n \<and> n \<le> 122)
            \<or> (192 \<le> n \<and> n \<le> 222 \<and> n \<noteq> 215) \<or> (224 \<le> n \<and> n \<le> 254 \<and> n \<noteq> 247)))"

text \<open>
  A pattern that consumes one character with the property \<open>P\<close>, and a pattern that
  consumes a text with the property \<open>Q\<close>; neither touches the captures.
\<close>

definition one_char :: "flags \<Rightarrow> string \<Rightarrow> regex \<Rightarrow> (char \<Rightarrow> bool) \<Rightarrow> bool" where
  "one_char f s r P \<longleftrightarrow>
     (\<forall>x y. y \<in> set (ms f s r x) \<longleftrightarrow> (\<exists>ch. fst x = ch # fst y \<and> P ch \<and> snd y = snd x))"

definition consumes :: "flags \<Rightarrow> string \<Rightarrow> regex \<Rightarrow> (string \<Rightarrow> bool) \<Rightarrow> bool" where
  "consumes f s r Q \<longleftrightarrow>
     (\<forall>x y. y \<in> set (ms f s r x) \<longleftrightarrow> (\<exists>w. fst x = w @ fst y \<and> Q w \<and> snd y = snd x))"

text \<open>The part of a strategy's pattern after group 2.\<close>

fun closer :: "strategy \<Rightarrow> regex list" where
  "closer Regex1 = [lit ''</segment:'', Star white, Backref 1, Chr (CHR ''>'')]"
| "closer Regex2 = [lit ''</segment:'', Plus (NCls [CChar (CHR ''>'')]), Chr (CHR ''>'')]"
| "closer Regex3 = [lit ''</segment>'']"
| "closer PlainText = [Lookahead (Alt (lit ''Segment:'') Eol)]"

section \<open>Score extractor: \<open>extractScoresFromSummary\<close> (request handler module)\<close>

text \<open>\<open>/[-*]\s*([^:]+):\s*(\d+)/i\<close>\<close>

definition bulletLineRegex :: RegExp where
  "bulletLineRegex =
     \<lparr>source = seq [Cls [CChar (CHR ''-''), CChar (CHR ''*'')], Star white,
                     Group 1 (Plus (NCls [CChar (CHR '':'')])), Chr (CHR '':''), Star white,
                     Group 2 (Plus (Cls [CDigit]))],
      re_flags = flags_i, ngroups = 2\<rparr>"

text \<open>
  The object \<open>scores\<close>: its keys in the order in which they were first assigned; an
  assignment to a key it has replaces the value in place.
\<close>

fun assign :: "(string \<times> jsnum) list \<Rightarrow> string \<Rightarrow> jsnum \<Rightarrow> (string \<times> jsnum) list" where
  "assign [] key v = [(key, v)]"
| "assign ((k, w) # rest) key v = (if k = key then (k, v) # rest else (k, w) # assign rest key v)"

text \<open>The body of the loop over the lines of the RATING block.\<close>

definition extract_score_line ::
  "string \<Rightarrow> (string \<times> jsnum) list \<Rightarrow> (string \<times> jsnum) list" where
  "extract_score_line line scores0 =
     (case str_match line bulletLineRegex of
        None \<Rightarrow> scores0
      | Some m \<Rightarrow>
          let cat = replace_all (toLowerCase (trim (grp m 1))) separatorsRegex (\<lambda>_. []);
              sc = Number_of_digits (grp m 2)
          in if str_includes cat ''empathy'' then assign scores0 ''empathy'' sc
             else if str_includes cat ''clarity'' then assign scores0 ''clarity'' sc
             else if str_includes cat ''assertiveness'' then assign scores0 ''assertiveness'' sc
             else if str_includes cat ''persuasion'' then assign scores0 ''persuasion'' sc
             else if str_includes cat ''activelistening''
                     \<or> (str_includes cat ''active'' \<and> str_includes cat ''listening'')
                  then assign scores0 ''activeListening'' sc
             else if str_includes cat ''objectionhandling''
                     \<or> (str_includes cat ''objection'' \<and> str_includes cat ''handling'')
                  then assign scores0 ''objectionHandling'' sc
             else if str_includes cat ''closingability''
                     \<or> (str_includes cat ''closing'' \<and> str_includes cat ''ability'')
                  then assign scores0 ''closingAbility'' sc
             else if str_includes cat ''flexibility'' \<or> str_includes cat ''flexible''
                  then assign scores0 ''flexibility'' sc
             else if str_includes cat ''openmindedness'' \<or> str_includes cat ''openminded''
                     \<or> (str_includes cat ''open'' \<and> str_includes cat ''mind'')
                  then assign scores0 ''flexibility'' sc
             else scores0)"

text \<open>
  \<open>extractScoresFromSummary\<close>: \<open>None\<close> is the \<open>null\<close> it returns when there is no RATING
  header or no line gave a score. Nothing in its \<open>try\<close> block throws for a string.
\<close>

definition extractScoresFromSummary :: "string \<Rightarrow> (string \<times> jsnum) list option" where
  "extractScoresFromSummary summaryAnalysis =
     (case str_match summaryAnalysis ratingRegex of
        None \<Rightarrow> None
      | Some ratingMatch \<Rightarrow>
          let ratingText = grp ratingMatch 1;
              lines = filter (\<lambda>l. l \<noteq> []) (map trim (split ratingText [CHR 0x0A]));
              scores1 = foldl (\<lambda>scores0 line. extract_score_line line scores0) [] lines
          in if length scores1 > 0 then Some scores1 else None)"

section \<open>Inputs of the examples\<close>

text \<open>A text between double quotes.\<close>

definition dq :: "string \<Rightarrow> string" where
  "dq s = CHR 0x22 # s @ [CHR 0x22]"


text \<open>
  A report as the page hands it to the parser: the JSON text of an object with the
  summary and the detail text, and the value \<open>JSON.parse\<close> returns for it.
\<close>

definition sample_summary :: string where
  "sample_summary = ''## RATING - Empathy: 70''"

definition sample_detail :: string where
  "sample_detail = ''<segment:Opening>user: Hi</segment:Opening>''"

definition sample_rawText :: string where
  "sample_rawText =
     ''{'' @ dq ''summaryAnalysis'' @ '':'' @ dq sample_summary @ '','' @
     dq ''detailedFeedback'' @ '':'' @ dq sample_detail @ ''}''"

definition sample_parsed :: jsval where
  "sample_parsed =
     JObj [(''summaryAnalysis'', JStr sample_summary), (''detailedFeedback'', JStr sample_detail)]"


text \<open>
  \<open>JSON.parse\<close> on the inputs of the examples: the report above, the text \<open>null\<close>, and
  texts that are not JSON. The examples apply it to no other input.
\<close>

definition JSON_parse_sample :: "string \<Rightarrow> jsval option" where
  "JSON_parse_sample rawText =
     (if rawText = sample_rawText then Some sample_parsed
      else if rawText = ''null'' then Some JNull
      else None)"


text \<open>What the parser returns for the report.\<close>

definition sample_result :: ParsedResult where
  "sample_result =
     \<lparr>summary = Some ''## RATING - Empathy: 70'', feedback = None, suggestions = None,
      segments = [\<lparr>title = ''Opening'', content = ''**User:** Hi''\<rparr>],
      scores =
        [\<lparr>category = Name ''Empathy'', score = Num 70\<rparr>,
         \<lparr>category = Name ''Clarity'', score = Num 90\<rparr>,
         \<lparr>category = Name ''Flexibility'', score = Num 80\<rparr>,
         \<lparr>category = Name ''Assertiveness'', score = Num 75\<rparr>,
         \<lparr>category = Name ''Active Listening'', score = Num 88\<rparr>,
         \<lparr>category = Name ''Conflict Management'', score = Num 99\<rparr>]\<rparr>"


text \<open>A summary text without headers, and a detail text in the plain-text form.\<close>

definition free_text :: string where
  "free_text = ''  Great call overall. ## notes: be brief''"

definition plain_detail :: string where
  "plain_detail = ''Segment: Opening\<newline>user: Hi there, how are you\<newline>Segment: B\<newline>short\<newline>''"



text \<open>
  Detail texts in the tag forms: a close tag with another title before the one with the
  same title; two segments whose close tags carry other titles; two segments with
  untitled close tags.
\<close>

definition nested_detail :: string where
  "nested_detail = ''<segment:a>x</segment:b>y</segment:a>''"

definition other_titles_detail :: string where
  "other_titles_detail = ''<segment:a>x</segment:b><segment:c>user: y</segment:d>''"

definition untitled_detail :: string where
  "untitled_detail = ''<segment:a>x</segment><SEGMENT: b>y</Segment>''"

text \<open>A summary text whose RATING block names one category twice and a new category.\<close>

definition rating_text :: string where
  "rating_text = ''## RATING\<newline>- Empathy: 70\<newline>- Persuasion: 60\<newline>* empathy : 500''"
section \<open>Properties of \<open>retryWithBackoff\<close>\<close>


subsection \<open>The six ways through one round of the loop\<close>

lemma retry_loop_past:
  "\<not> attempt \<le> maxR \<Longrightarrow>
     retry_loop fn maxR delay maxD rt attempt lastError s
       = \<lparr>outcome = Rejected lastError, calls = 0, waits = [], final = s\<rparr>"
  by (subst retry_loop.simps) simp

lemma retry_loop_resolved:
  "attempt \<le> maxR \<Longrightarrow> fn s = (Inr v, s') \<Longrightarrow>
     retry_loop fn maxR delay maxD rt attempt lastError s
       = \<lparr>outcome = Resolved v, calls = 1, waits = [], final = s'\<rparr>"
  by (subst retry_loop.simps) simp

lemma retry_loop_last:
  "attempt = maxR \<Longrightarrow> fn s = (Inl e, s') \<Longrightarrow>
     retry_loop fn maxR delay maxD rt attempt lastError s
       = \<lparr>outcome = Rejected e, calls = 1, waits = [], final = s'\<rparr>"
  by (subst retry_loop.simps) simp

lemma retry_loop_throw:
  "attempt < maxR \<Longrightarrow> fn s = (Inl e, s') \<Longrightarrow> rt e = Inl TypeError \<Longrightarrow>
     retry_loop fn maxR delay maxD rt attempt lastError s
       = \<lparr>outcome = Rejected_TypeError, calls = 1, waits = [], final = s'\<rparr>"
  by (subst retry_loop.simps) simp

lemma retry_loop_stop:
  "attempt < maxR \<Longrightarrow> fn s = (Inl e, s') \<Longrightarrow> rt e = Inr False \<Longrightarrow>
     retry_loop fn maxR delay maxD rt attempt lastError s
       = \<lparr>outcome = Rejected e, calls = 1, waits = [], final = s'\<rparr>"
  by (subst retry_loop.simps) simp

lemma retry_loop_again:
  "attempt < maxR \<Longrightarrow> fn s = (Inl e, s') \<Longrightarrow> rt e = Inr True \<Longrightarrow>
     retry_loop fn maxR delay maxD rt attempt lastError s
       = (retry_loop fn maxR delay maxD rt (attempt + 1) e s')
           \<lparr>calls := Suc (calls (retry_loop fn maxR delay maxD rt (attempt + 1) e s')),
            waits := math_min (times_pow2 delay (pow2 (nat attempt))) maxD
                       # waits (retry_loop fn maxR delay maxD rt (attempt + 1) e s')\<rparr>"
  by (subst retry_loop.simps) (simp add: Let_def)

text \<open>A round that is entered takes one of the five ways that invoke the operation.\<close>

lemma retry_loop_cases:
  fixes attempt maxR :: int and rt :: "jsval \<Rightarrow> thrown + bool"
  assumes "attempt \<le> maxR"
  obtains (resolved) v s' where "fn s = (Inr v, s')"
  | (last) e s' where "attempt = maxR" "fn s = (Inl e, s')"
  | (throw) e s' where "attempt < maxR" "fn s = (Inl e, s')" "rt e = Inl TypeError"
  | (stop) e s' where "attempt < maxR" "fn s = (Inl e, s')" "rt e = Inr False"
  | (again) e s' where "attempt < maxR" "fn s = (Inl e, s')" "rt e = Inr True"
proof -
  obtain x s' where f: "fn s = (x, s')" by (cases "fn s")
  show ?thesis
  proof (cases x)
    case (Inr v)
    with f resolved show ?thesis by simp
  next
    case (Inl e)
    show ?thesis
    proof (cases "attempt = maxR")
      case True
      with f Inl last show ?thesis by simp
    next
      case False
      with assms have lt: "attempt < maxR" by simp
      show ?thesis
      proof (cases "rt e")
        case (Inl t)
        then have "rt e = Inl TypeError" by (cases t) simp
        with lt f \<open>x = Inl e\<close> throw show ?thesis by simp
      next
        case (Inr b)
        with lt f \<open>x = Inl e\<close> stop again show ?thesis by (cases b) simp_all
      qed
    qed
  qed
qed

subsection \<open>Invocations and waits\<close>

lemma retry_loop_calls_fail:
  assumes "\<forall>s. \<exists>e s'. fn s = (Inl e, s') \<and> rt e = Inr True" "attempt \<le> maxR"
  shows "calls (retry_loop fn maxR delay maxD rt attempt le s) = nat (maxR - attempt) + 1
    \<and> outcome (retry_loop fn maxR delay maxD rt attempt le s)
        = (case fst (fn (state_after fn (nat (maxR - attempt)) s)) of
             Inl e \<Rightarrow> Rejected e | Inr v \<Rightarrow> Resolved v)"
  using assms(2)
proof (induction "nat (maxR - attempt)" arbitrary: attempt le s)
  case 0
  then have eq: "attempt = maxR" by simp
  obtain e s' where f: "fn s = (Inl e, s')" using assms(1) by blast
  have "retry_loop fn maxR delay maxD rt attempt le s
          = \<lparr>outcome = Rejected e, calls = 1, waits = [], final = s'\<rparr>"
    using eq f by (rule retry_loop_last)
  then show ?case using f eq by simp
next
  case (Suc k)
  then have lt: "attempt < maxR" and k: "k = nat (maxR - (attempt + 1))" by auto
  obtain e s' where f: "fn s = (Inl e, s')" and r: "rt e = Inr True" using assms(1) by blast
  have n: "nat (maxR - attempt) = Suc (nat (maxR - (attempt + 1)))" using lt by simp
  have unf: "retry_loop fn maxR delay maxD rt attempt le s
      = (retry_loop fn maxR delay maxD rt (attempt + 1) e s')
           \<lparr>calls := Suc (calls (retry_loop fn maxR delay maxD rt (attempt + 1) e s')),
            waits := math_min (times_pow2 delay (pow2 (nat attempt))) maxD
                       # waits (retry_loop fn maxR delay maxD rt (attempt + 1) e s')\<rparr>"
    using lt f r by (rule retry_loop_again)
  from Suc(1)[OF k, of e s'] lt
  show ?case using f unfolding unf by (simp add: n)
qed

lemma retry_loop_calls_waits:
  "calls (retry_loop fn maxR delay maxD rt attempt le s)
     = (if attempt \<le> maxR
        then Suc (length (waits (retry_loop fn maxR delay maxD rt attempt le s))) else 0)"
proof (induction "nat (maxR + 1 - attempt)" arbitrary: attempt le s)
  case 0
  then have "\<not> attempt \<le> maxR" by simp
  then show ?case by (simp add: retry_loop_past)
next
  case (Suc k)
  then have le: "attempt \<le> maxR" by simp
  from le show ?case
  proof (cases rule: retry_loop_cases[where attempt = attempt and maxR = maxR and fn = fn and s = s and rt = rt])
    case (again e s')
    have \<open>k = nat (maxR + 1 - (attempt + 1))\<close> using Suc(2) by simp
    have unf: "retry_loop fn maxR delay maxD rt attempt le s
        = (retry_loop fn maxR delay maxD rt (attempt + 1) e s')
             \<lparr>calls := Suc (calls (retry_loop fn maxR delay maxD rt (attempt + 1) e s')),
              waits := math_min (times_pow2 delay (pow2 (nat attempt))) maxD
                         # waits (retry_loop fn maxR delay maxD rt (attempt + 1) e s')\<rparr>"
      using again by (rule retry_loop_again)
    from Suc(1)[OF \<open>k = nat (maxR + 1 - (attempt + 1))\<close>, of e s'] again(1) le show ?thesis
      unfolding unf by simp
  qed (simp_all add: le retry_loop_resolved retry_loop_last retry_loop_throw retry_loop_stop)
qed

lemma retry_loop_waits:
  "0 \<le> attempt \<Longrightarrow> waits (retry_loop fn maxR delay maxD rt attempt le s)
     = map (\<lambda>k. math_min (times_pow2 delay (pow2 k)) maxD)
         [nat attempt ..< nat attempt + length (waits (retry_loop fn maxR delay maxD rt attempt le s))]"
proof (induction "nat (maxR + 1 - attempt)" arbitrary: attempt le s)
  case 0
  then have "\<not> attempt \<le> maxR" by simp
  then show ?case by (simp add: retry_loop_past)
next
  case (Suc k)
  then have le: "attempt \<le> maxR" by simp
  from le show ?case
  proof (cases rule: retry_loop_cases[where attempt = attempt and maxR = maxR and fn = fn and s = s and rt = rt])
    case (again e s')
    define r where "r = retry_loop fn maxR delay maxD rt (attempt + 1) e s'"
    have n: "nat (attempt + 1) = Suc (nat attempt)" using Suc.prems by simp
    have k: "k = nat (maxR + 1 - (attempt + 1))" using Suc(2) by simp
    have ih: "waits r = map (\<lambda>k. math_min (times_pow2 delay (pow2 k)) maxD)
                 [Suc (nat attempt) ..< Suc (nat attempt) + length (waits r)]"
      using Suc(1)[OF k, of e s'] Suc.prems n unfolding r_def by simp
    have unf: "retry_loop fn maxR delay maxD rt attempt le s
        = r\<lparr>calls := Suc (calls r),
             waits := math_min (times_pow2 delay (pow2 (nat attempt))) maxD # waits r\<rparr>"
      unfolding r_def using again by (rule retry_loop_again)
    have "[nat attempt ..< nat attempt + Suc (length (waits r))]
        = nat attempt # [Suc (nat attempt) ..< Suc (nat attempt) + length (waits r)]"
      by (subst upt_conv_Cons) simp_all
    then show ?thesis unfolding unf using ih by simp
  qed (simp_all add: le retry_loop_resolved retry_loop_last retry_loop_throw retry_loop_stop)
qed

lemma retry_loop_length_waits:
  "\<forall>j\<le>k. \<exists>e. fst (fn (state_after fn j s)) = Inl e \<and> rt e = Inr True \<Longrightarrow>
   attempt + int k < maxR \<Longrightarrow>
     k < length (waits (retry_loop fn maxR delay maxD rt attempt le s))"
proof (induction k arbitrary: attempt le s)
  case 0
  then obtain e where e: "fst (fn s) = Inl e" "rt e = Inr True" by auto
  obtain s' where f: "fn s = (Inl e, s')" using e(1) by (cases "fn s") simp
  have lt: "attempt < maxR" using 0(2) by simp
  have "retry_loop fn maxR delay maxD rt attempt le s
      = (retry_loop fn maxR delay maxD rt (attempt + 1) e s')
           \<lparr>calls := Suc (calls (retry_loop fn maxR delay maxD rt (attempt + 1) e s')),
            waits := math_min (times_pow2 delay (pow2 (nat attempt))) maxD
                       # waits (retry_loop fn maxR delay maxD rt (attempt + 1) e s')\<rparr>"
    using lt f e(2) by (rule retry_loop_again)
  then show ?case by simp
next
  case (Suc k)
  from Suc.prems(1) obtain e where e: "fst (fn s) = Inl e" "rt e = Inr True" by fastforce
  obtain s' where f: "fn s = (Inl e, s')" using e(1) by (cases "fn s") simp
  have lt: "attempt < maxR" using Suc.prems(2) by simp
  have "\<forall>j\<le>k. \<exists>e. fst (fn (state_after fn j s')) = Inl e \<and> rt e = Inr True"
  proof (intro allI impI)
    fix j assume "j \<le> k"
    then have "Suc j \<le> Suc k" by simp
    with Suc.prems(1) have "\<exists>e. fst (fn (state_after fn (Suc j) s)) = Inl e \<and> rt e = Inr True"
      by blast
    then show "\<exists>e. fst (fn (state_after fn j s')) = Inl e \<and> rt e = Inr True" using f by simp
  qed
  moreover have "(attempt + 1) + int k < maxR" using Suc.prems(2) by simp
  ultimately have "k < length (waits (retry_loop fn maxR delay maxD rt (attempt + 1) e s'))"
    by (rule Suc.IH)
  moreover have "retry_loop fn maxR delay maxD rt attempt le s
      = (retry_loop fn maxR delay maxD rt (attempt + 1) e s')
           \<lparr>calls := Suc (calls (retry_loop fn maxR delay maxD rt (attempt + 1) e s')),
            waits := math_min (times_pow2 delay (pow2 (nat attempt))) maxD
                       # waits (retry_loop fn maxR delay maxD rt (attempt + 1) e s')\<rparr>"
    using lt f e(2) by (rule retry_loop_again)
  ultimately show ?case by simp
qed

text \<open>
  The delay computed in doubles is the minimum computed in the integers when the
  initial delay is positive, or when neither the power nor the product leaves the range
  of the doubles; \<open>maxDelay\<close> is a double, hence below \<open>2^1024\<close>.
\<close>

lemma backoff_exact:
  assumes "m < 2 ^ 1024" and "0 < d \<or> (k < 1024 \<and> - (2 ^ 1024) < d * 2 ^ k)"
  shows "math_min (times_pow2 d (pow2 k)) m = Num (min (d * 2 ^ k) m)"
proof -
  define M :: int where "M = 2 ^ 1024"
  define x where "x = d * 2 ^ k"
  have tp: "times_pow2 d (Num (2 ^ k))
              = (if \<bar>x\<bar> < M then Num x else if 0 < d then PosInfinity else NegInfinity)"
    unfolding M_def x_def by (simp only: times_pow2.simps)
  have m: "m < M" using assms(1) unfolding M_def .
  have sgn: "d \<le> 0 \<Longrightarrow> x \<le> 0" unfolding x_def by (simp add: mult_le_0_iff)
  have pos: "0 < d \<Longrightarrow> 0 < x" unfolding x_def by simp
  show ?thesis
  proof (cases "k < 1024")
    case True
    then have p: "pow2 k = Num (2 ^ k)" by (simp only: pow2_def if_True)
    show ?thesis
    proof (cases "\<bar>x\<bar> < M")
      case True
      then show ?thesis unfolding p tp by (simp add: x_def)
    next
      case False
      have d: "0 < d"
      proof (rule ccontr)
        assume "\<not> 0 < d"
        with assms(2) have "- M < x" unfolding M_def x_def by simp
        moreover have "x \<le> 0" using \<open>\<not> 0 < d\<close> sgn by simp
        ultimately show False using False by simp
      qed
      with False pos have "M \<le> x" by simp
      with m have "min x m = m" by simp
      then show ?thesis unfolding p tp using False d by (simp add: x_def)
    qed
  next
    case False
    then have p: "pow2 k = PosInfinity" by (simp only: pow2_def if_False)
    from False assms(2) have d: "0 < d" by simp
    have "M \<le> 2 ^ k" unfolding M_def using False by (intro power_increasing) simp_all
    also have "\<dots> \<le> x" unfolding x_def using d by (simp add: mult_le_cancel_right1)
    finally have "min x m = m" using m by simp
    then show ?thesis unfolding p using d by (simp add: x_def)
  qed
qed

text \<open>
  Where the condition fails the two differ: with an initial delay of zero the delay
  computed after attempt 1024 is \<open>NaN\<close>, with a negative one it is \<open>-Infinity\<close>.
\<close>

lemma backoff_overflow:
  "math_min (times_pow2 0 (pow2 1024)) m = NaN"
  "math_min (times_pow2 (- 1) (pow2 1024)) m = NegInfinity"
  by (simp_all add: pow2_def)

text \<open>
  Claim C3. An operation that rejects with a retryable error every time it is invoked is
  invoked exactly \<open>maxRetries + 1\<close> times (for a retry count \<open>maxRetries \<ge> 0\<close>), and
  \<open>retryWithBackoff\<close> rejects with the error of the last of these invocations.
\<close>

theorem retry_bound:
  assumes "opt_maxRetries options = n" and "0 \<le> n"
    and "\<forall>s. \<exists>e s'. fn s = (Inl e, s') \<and> opt_retryable options e = Inr True"
  shows "calls (retryWithBackoff fn options s) = nat n + 1 \<and>
         (\<exists>e. fst (fn (state_after fn (nat n) s)) = Inl e \<and>
              outcome (retryWithBackoff fn options s) = Rejected e)"
proof -
  obtain e s' where "fn (state_after fn (nat n) s) = (Inl e, s')" using assms(3) by blast
  then show ?thesis
    using retry_loop_calls_fail[of fn "opt_retryable options" 0 n "opt_initialDelay options"
        "opt_maxDelay options" JUndefined s] assms
    by (simp add: retryWithBackoff_def)
qed

text \<open>
  With \<open>maxRetries = 2\<close> an operation that always loses its connection is invoked three
  times, and the rejection carries its error.
\<close>

theorem retry_bound_witness:
  "opt_maxRetries analyzeTranscript_retryOptions = 2 \<and>
   calls (retryWithBackoff always_lost analyzeTranscript_retryOptions 0) = 3 \<and>
   outcome (retryWithBackoff always_lost analyzeTranscript_retryOptions 0)
     = Rejected (Error_with ''Network connection lost.'')"
proof -
  have a: "opt_maxRetries analyzeTranscript_retryOptions = 2"
    by (simp add: opt_maxRetries_def analyzeTranscript_retryOptions_def)
  have r: "opt_retryable analyzeTranscript_retryOptions (Error_with ''Network connection lost.'')
             = Inr True"
    by (simp add: opt_retryable_def analyzeTranscript_retryOptions_def defaultRetryable_def
        Error_with_def js_opt_get_def)
  have b: "\<forall>s. \<exists>e s'. always_lost s = (Inl e, s')
              \<and> opt_retryable analyzeTranscript_retryOptions e = Inr True"
    using r by (simp add: always_lost_def)
  have c: "fst (always_lost k) = Inl (Error_with ''Network connection lost.'')" for k
    by (simp add: always_lost_def)
  have "(0::int) \<le> 2" by simp
  from retry_bound[OF a this b, of 0] show ?thesis using a c by auto
qed




text \<open>
  Claim C5. When the attempts \<open>0, \<dots>, k\<close> all fail with a retryable error and attempt
  \<open>k\<close> is not the last one allowed (\<open>k < maxRetries\<close>), a wait follows attempt \<open>k\<close>, and
  the delay it hands to \<open>setTimeout\<close> is \<open>min (initialDelay * 2 ^ k) maxDelay\<close>. The
  delays are doubles with an integer value (so \<open>maxDelay\<close> is below \<open>2^1024\<close>); the
  initial delay is positive, or neither \<open>2 ^ k\<close> nor the product leaves the range of the
  doubles.
\<close>

theorem backoff_delay:
  assumes "\<forall>j\<le>k. \<exists>e. fst (fn (state_after fn j s)) = Inl e \<and> opt_retryable options e = Inr True"
    and "int k < opt_maxRetries options"
    and "opt_maxDelay options < 2 ^ 1024"
    and "0 < opt_initialDelay options
         \<or> (k < 1024 \<and> - (2 ^ 1024) < opt_initialDelay options * 2 ^ k)"
  shows "k < length (waits (retryWithBackoff fn options s)) \<and>
         waits (retryWithBackoff fn options s) ! k
           = Num (min (opt_initialDelay options * 2 ^ k) (opt_maxDelay options))"
proof -
  let ?r = "retryWithBackoff fn options s"
  let ?w = "\<lambda>k. math_min (times_pow2 (opt_initialDelay options) (pow2 k)) (opt_maxDelay options)"
  have len: "k < length (waits ?r)"
    unfolding retryWithBackoff_def using assms(1,2) by (intro retry_loop_length_waits) simp_all
  have "waits ?r = map ?w [0 ..< length (waits ?r)]"
    unfolding retryWithBackoff_def
    using retry_loop_waits[of 0 fn "opt_maxRetries options" "opt_initialDelay options"
        "opt_maxDelay options" "opt_retryable options" JUndefined s]
    by simp
  then have "waits ?r ! k = map ?w [0 ..< length (waits ?r)] ! k" by simp
  also have "\<dots> = ?w k" using len by simp
  also have "\<dots> = Num (min (opt_initialDelay options * 2 ^ k) (opt_maxDelay options))"
    by (rule backoff_exact[OF assms(3,4)])
  finally show ?thesis using len by simp
qed

text \<open>
  Four failures with \<open>initialDelay = 500\<close> and \<open>maxDelay = 3000\<close>: the second wait is
  1000, the fourth is cut at 3000.
\<close>

theorem backoff_delay_witness:
  "fst (lost_then_ok (state_after lost_then_ok 3 0)) = Inl (JObj [(''retryable'', JBool True)]) \<and>
   opt_retryable wide_options (JObj [(''retryable'', JBool True)]) = Inr True \<and>
   int 3 < opt_maxRetries wide_options \<and>
   opt_maxDelay wide_options < 2 ^ 1024 \<and>
   0 < opt_initialDelay wide_options \<and>
   waits (retryWithBackoff lost_then_ok wide_options 0) ! 1 = Num 1000 \<and>
   waits (retryWithBackoff lost_then_ok wide_options 0) ! 3 = Num 3000"
proof -
  have sa: "state_after lost_then_ok j 0 = j" for j
  proof -
    have "state_after lost_then_ok j i = i + j" for i
      by (induction j arbitrary: i) (simp_all add: lost_then_ok_def)
    then show ?thesis by simp
  qed
  have d: "opt_retryable wide_options (JObj [(''retryable'', JBool True)]) = Inr True"
    by (simp add: opt_retryable_def wide_options_def defaultRetryable_def js_opt_get_def)
  have a: "\<forall>j\<le>3. \<exists>e. fst (lost_then_ok (state_after lost_then_ok j 0)) = Inl e
              \<and> opt_retryable wide_options e = Inr True"
    using d by (simp add: sa lost_then_ok_def)
  then have a1: "\<forall>j\<le>1. \<exists>e. fst (lost_then_ok (state_after lost_then_ok j 0)) = Inl e
              \<and> opt_retryable wide_options e = Inr True"
    by simp
  have b: "int 3 < opt_maxRetries wide_options" "int 1 < opt_maxRetries wide_options"
    by (simp_all add: opt_maxRetries_def wide_options_def)
  have m: "opt_maxDelay wide_options < 2 ^ 1024" by (simp add: opt_maxDelay_def wide_options_def)
  have i: "0 < opt_initialDelay wide_options" by (simp add: opt_initialDelay_def wide_options_def)
  have w3: "waits (retryWithBackoff lost_then_ok wide_options 0) ! 3 = Num 3000"
    using backoff_delay[OF a b(1) m disjI1[OF i]]
    by (simp add: opt_initialDelay_def opt_maxDelay_def wide_options_def)
  have w1: "waits (retryWithBackoff lost_then_ok wide_options 0) ! 1 = Num 1000"
    using backoff_delay[OF a1 b(2) m disjI1[OF i]]
    by (simp add: opt_initialDelay_def opt_maxDelay_def wide_options_def)
  have c: "fst (lost_then_ok (state_after lost_then_ok 3 0)) = Inl (JObj [(''retryable'', JBool True)])"
    by (simp add: sa lost_then_ok_def)
  show ?thesis using w1 w3 b(1) c d m i by simp
qed

text \<open>
  Claim C8 says that the detail stage has a larger \<open>maxDelay\<close> than the analysis and
  summary stages. The three option literals are the same, so it is not larger.
\<close>

theorem detail_stage_larger_ceiling_counterexample:
  "\<not> (opt_maxDelay analyzeDetails_retryOptions > opt_maxDelay analyzeTranscript_retryOptions \<and>
      opt_maxDelay analyzeDetails_retryOptions > opt_maxDelay generateSummary_retryOptions \<and>
      opt_maxRetries analyzeDetails_retryOptions = opt_maxRetries analyzeTranscript_retryOptions \<and>
      opt_initialDelay analyzeDetails_retryOptions = opt_initialDelay analyzeTranscript_retryOptions)"
  by (simp add: opt_maxDelay_def analyzeDetails_retryOptions_def analyzeTranscript_retryOptions_def)

text \<open>
  Claim C8, amended. The detail stage calls \<open>retryWithBackoff\<close> with the same options
  as the analysis and summary stages: two retries, an initial delay of 500 and a
  maximum delay of 5000, with the default predicate.
\<close>

theorem stage_retry_options_identical:
  "analyzeDetails_retryOptions = analyzeTranscript_retryOptions \<and>
   analyzeDetails_retryOptions = generateSummary_retryOptions \<and>
   opt_maxRetries analyzeDetails_retryOptions = 2 \<and>
   opt_initialDelay analyzeDetails_retryOptions = 500 \<and>
   opt_maxDelay analyzeDetails_retryOptions = 5000 \<and>
   opt_retryable analyzeDetails_retryOptions = defaultRetryable"
  by (simp add: analyzeDetails_retryOptions_def analyzeTranscript_retryOptions_def
      generateSummary_retryOptions_def opt_maxRetries_def opt_initialDelay_def opt_maxDelay_def
      opt_retryable_def)

section \<open>Properties of the matcher\<close>

subsection \<open>Groups that take part in every match\<close>

text \<open>
  A group that the pattern sets in every match holds a text after every match, so that
  \<open>grp\<close> never meets \<open>None\<close> for it.
\<close>

lemma ms_captures:
  "y \<in> set (ms f s r x) \<Longrightarrow>
     length (snd y) = length (snd x) \<and>
     (\<forall>k < length (snd x). snd x ! k \<noteq> None \<longrightarrow> snd y ! k \<noteq> None)"
proof (induction f s r x arbitrary: y rule: ms.induct)
  case (4 f s a b x)
  then obtain z where z: "z \<in> set (ms f s a x)" "y \<in> set (ms f s b z)" by auto
  from "4.IH"(1)[OF z(1)] "4.IH"(2)[OF z(1) z(2)] show ?case by simp
next
  case (7 f s r x)
  show ?case
  proof (cases "y = x")
    case False
    with "7.prems" obtain z where z: "z \<in> set (ms f s r x)" "length (fst z) < length (fst x)"
      "y \<in> set (ms f s (Star r) z)" by (subst (asm) ms.simps(7)) auto
    from "7.IH"(1)[OF z(1)] "7.IH"(2)[of z y] z show ?thesis by simp
  qed simp
next
  case (8 f s r x)
  show ?case
  proof (cases "y = x")
    case False
    with "8.prems" obtain z where z: "z \<in> set (ms f s r x)" "length (fst z) < length (fst x)"
      "y \<in> set (ms f s (LazyStar r) z)" by (subst (asm) ms.simps(8)) auto
    from "8.IH"(1)[OF z(1)] "8.IH"(2)[of z y] z show ?thesis by simp
  qed simp
next
  case (9 f s k r x)
  then obtain z where z: "z \<in> set (ms f s r x)"
    "y = (fst z, (snd z)[k := Some (take (length (fst x) - length (fst z)) (fst x))])" by auto
  from "9.IH"[OF z(1)] have ih: "length (snd z) = length (snd x)"
    "\<And>j. j < length (snd x) \<Longrightarrow> snd x ! j \<noteq> None \<Longrightarrow> snd z ! j \<noteq> None" by auto
  have "snd y ! j \<noteq> None" if "j < length (snd x)" "snd x ! j \<noteq> None" for j
  proof (cases "j = k")
    case True
    then show ?thesis unfolding z(2) using that(1) ih(1) by simp
  next
    case False
    then show ?thesis unfolding z(2) using ih(2)[OF that] by simp
  qed
  moreover have "length (snd y) = length (snd x)" unfolding z(2) using ih(1) by simp
  ultimately show ?case by blast
next
  case (11 f s r x)
  show ?case
  proof (cases "ms f s r x")
    case Nil
    with "11.prems" show ?thesis by simp
  next
    case (Cons z zs)
    with "11.prems" have y: "y = (fst x, snd z)" by simp
    have "z \<in> set (ms f s r x)" using Cons by simp
    from "11.IH"[OF this] show ?thesis unfolding y by simp
  qed
qed (auto split: list.splits if_splits option.splits simp: Let_def)

lemma ms_sets_group:
  "sets_group k r \<Longrightarrow> y \<in> set (ms f s r x) \<Longrightarrow> k < length (snd x) \<Longrightarrow> snd y ! k \<noteq> None"
proof (induction r arbitrary: x y)
  case (Seq a b)
  from Seq.prems(2) obtain z where z: "z \<in> set (ms f s a x)" "y \<in> set (ms f s b z)" by auto
  have lz: "length (snd z) = length (snd x)" using ms_captures[OF z(1)] by simp
  show ?case
  proof (cases "sets_group k a")
    case True
    from Seq.IH(1)[OF True z(1) Seq.prems(3)] have "snd z ! k \<noteq> None" .
    with ms_captures[OF z(2)] lz Seq.prems(3) show ?thesis by simp
  next
    case False
    with Seq.prems(1) have "sets_group k b" by simp
    from Seq.IH(2)[OF this z(2)] lz Seq.prems(3) show ?thesis by simp
  qed
next
  case (Alt a b)
  from Alt.prems(2) have "y \<in> set (ms f s a x) \<or> y \<in> set (ms f s b x)" by simp
  then show ?case
  proof
    assume "y \<in> set (ms f s a x)"
    with Alt.IH(1) Alt.prems(1,3) show ?thesis by simp
  next
    assume "y \<in> set (ms f s b x)"
    with Alt.IH(2) Alt.prems(1,3) show ?thesis by simp
  qed
next
  case (Group j r)
  from Group.prems(2) obtain z where z: "z \<in> set (ms f s r x)"
    "y = (fst z, (snd z)[j := Some (take (length (fst x) - length (fst z)) (fst x))])" by auto
  have lz: "length (snd z) = length (snd x)" using ms_captures[OF z(1)] by simp
  show ?case
  proof (cases "j = k")
    case True
    then show ?thesis unfolding z(2) using lz Group.prems(3) by simp
  next
    case False
    with Group.prems(1) have "sets_group k r" by simp
    from Group.IH[OF this z(1) Group.prems(3)] show ?thesis
      unfolding z(2) using False by (simp add: nth_list_update)
  qed
next
  case (Lookahead r)
  show ?case
  proof (cases "ms f s r x")
    case Nil
    with Lookahead.prems(2) show ?thesis by simp
  next
    case (Cons z zs)
    with Lookahead.prems(2) have y: "y = (fst x, snd z)" by simp
    have "z \<in> set (ms f s r x)" using Cons by simp
    from Lookahead.IH[OF _ this Lookahead.prems(3)] Lookahead.prems(1) show ?thesis
      unfolding y by simp
  qed
qed simp_all

lemma search_from_group:
  "search_from f r n s i = Some m \<Longrightarrow> sets_group k r \<Longrightarrow> 0 < k \<Longrightarrow> k \<le> n \<Longrightarrow>
     groups m ! k \<noteq> None"
proof (induction f r n s i rule: search_from.induct)
  case (1 f r n s i)
  show ?case
  proof (cases "length s < i")
    case True
    with "1.prems"(1) show ?thesis by (simp add: search_from.simps[of f r n s i])
  next
    case le: False
    show ?thesis
    proof (cases "ms f s r (drop i s, replicate (Suc n) None)")
      case Nil
      with le "1.prems"(1) have "search_from f r n s (Suc i) = Some m"
        by (simp add: search_from.simps[of f r n s i])
      from "1.IH"[OF le Nil this "1.prems"(2,3,4)] show ?thesis .
    next
      case (Cons y ys)
      then have y: "y \<in> set (ms f s r (drop i s, replicate (Suc n) None))" by simp
      have "snd y ! k \<noteq> None"
        using ms_sets_group[OF "1.prems"(2) y] "1.prems"(4) by simp
      moreover from le Cons "1.prems"(1) have "groups m
          = (snd y)[0 := Some (take (length s - length (fst y) - i) (drop i s))]"
        by (auto simp add: search_from.simps[of f r n s i])
      ultimately show ?thesis using "1.prems"(3) by simp
    qed
  qed
qed

lemma grp_takes_part:
  assumes "exec re s lastIndex = Some m" and "sets_group k (source re)"
    and "0 < k" and "k \<le> ngroups re"
  shows "groups m ! k = Some (grp (groups m) k)"
proof -
  from search_from_group[OF assms(1)[unfolded exec_def] assms(2,3,4)]
  show ?thesis by (auto simp add: grp_def)
qed

subsection \<open>A pattern that matches nowhere\<close>

lemma canonicalize_hash: "canonicalize c = CHR ''#'' \<longleftrightarrow> c = CHR ''#''"
proof -
  have "(of_char (canonicalize c) = (35::nat)) = (of_char c = (35::nat))"
    by (auto simp add: canonicalize_def Let_def)
  moreover have "of_char (CHR ''#'') = (35 :: nat)" by simp
  ultimately show ?thesis by (metis of_char_eq_iff)
qed

lemma char_eq_hash: "char_eq f (CHR ''#'') c \<longleftrightarrow> c = CHR ''#''"
  using canonicalize_hash[of c] canonicalize_hash[of "CHR ''#''"]
  by (auto simp add: char_eq_def)

lemma search_from_no_match:
  assumes "\<And>i. ms f s r (drop i s, replicate (Suc n) None) = []"
  shows "search_from f r n s i = None"
proof (induction "Suc (length s) - i" arbitrary: i)
  case 0
  then show ?case by (simp add: search_from.simps[of f r n s i])
next
  case (Suc k)
  have e: "ms f s r (drop i s, replicate (Suc n) None) = []" by (rule assms)
  from Suc(2) have "k = Suc (length s) - Suc i" by simp
  from Suc(1)[OF this] e show ?case
    by (subst search_from.simps) (simp del: replicate.simps)
qed

section \<open>What the segment patterns match\<close>

subsection \<open>The end states of a match, as a set\<close>

lemma in_ms_Chr:
  "y \<in> set (ms f s (Chr c) x) \<longleftrightarrow> (\<exists>ch. fst x = ch # fst y \<and> char_eq f c ch \<and> snd y = snd x)"
  by (cases x; cases y) (auto split: list.splits)

lemma in_ms_Cls:
  "y \<in> set (ms f s (Cls cl) x) \<longleftrightarrow> (\<exists>ch. fst x = ch # fst y \<and> in_class f cl ch \<and> snd y = snd x)"
  by (cases x; cases y) (auto split: list.splits)

lemma in_ms_NCls:
  "y \<in> set (ms f s (NCls cl) x) \<longleftrightarrow> (\<exists>ch. fst x = ch # fst y \<and> \<not> in_class f cl ch \<and> snd y = snd x)"
  by (cases x; cases y) (auto split: list.splits)

lemma concat_singletons: "concat (map (\<lambda>z. [z]) xs) = xs"
  by (induction xs) simp_all

lemma ms_seq_Cons: "ms f s (seq (r # rs)) x = concat (map (ms f s (seq rs)) (ms f s r x))"
proof (cases rs)
  case Nil
  have "ms f s Eps = (\<lambda>z. [z])" by (rule ext) simp
  with Nil show ?thesis by (simp add: concat_singletons)
qed simp

lemma in_ms_seq_Cons:
  "y \<in> set (ms f s (seq (r # rs)) x) \<longleftrightarrow> (\<exists>z \<in> set (ms f s r x). y \<in> set (ms f s (seq rs) z))"
  by (auto simp add: ms_seq_Cons)

lemma in_ms_lit:
  "y \<in> set (ms f s (lit t) x) \<longleftrightarrow>
     (\<exists>w. fst x = w @ fst y \<and> list_all2 (char_eq f) t w \<and> snd y = snd x)"
proof (induction t arbitrary: x)
  case Nil
  show ?case by (cases x; cases y) (auto simp add: lit_def)
next
  case (Cons c t)
  have "y \<in> set (ms f s (lit (c # t)) x)
      \<longleftrightarrow> (\<exists>z \<in> set (ms f s (Chr c) x). y \<in> set (ms f s (lit t) z))"
    unfolding lit_def list.map by (rule in_ms_seq_Cons)
  also have "\<dots> \<longleftrightarrow> (\<exists>z. (\<exists>ch. fst x = ch # fst z \<and> char_eq f c ch \<and> snd z = snd x)
        \<and> (\<exists>w. fst z = w @ fst y \<and> list_all2 (char_eq f) t w \<and> snd y = snd z))"
    by (simp only: in_ms_Chr Cons.IH Bex_def)
  also have "\<dots> \<longleftrightarrow> (\<exists>w. fst x = w @ fst y \<and> list_all2 (char_eq f) (c # t) w \<and> snd y = snd x)"
  proof
    assume "\<exists>z. (\<exists>ch. fst x = ch # fst z \<and> char_eq f c ch \<and> snd z = snd x)
        \<and> (\<exists>w. fst z = w @ fst y \<and> list_all2 (char_eq f) t w \<and> snd y = snd z)"
    then obtain z ch w where "fst x = ch # fst z" "char_eq f c ch" "snd z = snd x"
      "fst z = w @ fst y" "list_all2 (char_eq f) t w" "snd y = snd z" by blast
    then have "fst x = (ch # w) @ fst y \<and> list_all2 (char_eq f) (c # t) (ch # w) \<and> snd y = snd x"
      by simp
    then show "\<exists>w. fst x = w @ fst y \<and> list_all2 (char_eq f) (c # t) w \<and> snd y = snd x" by blast
  next
    assume "\<exists>w. fst x = w @ fst y \<and> list_all2 (char_eq f) (c # t) w \<and> snd y = snd x"
    then obtain w where w: "fst x = w @ fst y" "list_all2 (char_eq f) (c # t) w" "snd y = snd x"
      by blast
    from w(2) obtain ch w' where w': "w = ch # w'" "char_eq f c ch" "list_all2 (char_eq f) t w'"
      by (auto simp add: list_all2_Cons1)
    let ?z = "(w' @ fst y, snd x)"
    have "(\<exists>ch. fst x = ch # fst ?z \<and> char_eq f c ch \<and> snd ?z = snd x)
        \<and> (\<exists>w. fst ?z = w @ fst y \<and> list_all2 (char_eq f) t w \<and> snd y = snd ?z)"
      using w w' by simp
    then show "\<exists>z. (\<exists>ch. fst x = ch # fst z \<and> char_eq f c ch \<and> snd z = snd x)
        \<and> (\<exists>w. fst z = w @ fst y \<and> list_all2 (char_eq f) t w \<and> snd y = snd z)" by blast
  qed
  finally show ?case .
qed

text \<open>The stars of a pattern that consumes one character consume a run of such characters.\<close>

lemma one_charD:
  "one_char f s r P \<Longrightarrow>
     y \<in> set (ms f s r x) \<longleftrightarrow> (\<exists>ch. fst x = ch # fst y \<and> P ch \<and> snd y = snd x)"
  unfolding one_char_def by blast

lemma one_char_Chr: "one_char f s (Chr c) (char_eq f c)"
  unfolding one_char_def by (simp only: in_ms_Chr) simp

lemma one_char_Cls: "one_char f s (Cls cl) (in_class f cl)"
  unfolding one_char_def by (simp only: in_ms_Cls) simp

lemma one_char_NCls: "one_char f s (NCls cl) (\<lambda>ch. \<not> in_class f cl ch)"
  unfolding one_char_def by (simp only: in_ms_NCls) simp

lemma in_ms_Star:
  assumes "one_char f s r P"
  shows "y \<in> set (ms f s (Star r) x) \<longleftrightarrow>
     (\<exists>w. fst x = w @ fst y \<and> list_all P w \<and> snd y = snd x)"
proof (induction "length (fst x)" arbitrary: x rule: less_induct)
  case less
  have step: "y \<in> set (ms f s (Star r) x) \<longleftrightarrow>
      y = x \<or> (\<exists>z \<in> set (ms f s r x). length (fst z) < length (fst x) \<and> y \<in> set (ms f s (Star r) z))"
    by (subst ms.simps(7)) auto
  show ?case
  proof
    assume "y \<in> set (ms f s (Star r) x)"
    with step consider "y = x"
      | z where "z \<in> set (ms f s r x)" "length (fst z) < length (fst x)" "y \<in> set (ms f s (Star r) z)"
      by blast
    then show "\<exists>w. fst x = w @ fst y \<and> list_all P w \<and> snd y = snd x"
    proof cases
      case 1
      then have "fst x = [] @ fst y \<and> list_all P [] \<and> snd y = snd x" by simp
      then show ?thesis by blast
    next
      case 2
      from 2(1) obtain ch where ch: "fst x = ch # fst z" "P ch" "snd z = snd x"
        unfolding one_charD[OF assms] by blast
      from less[OF 2(2)] 2(3) obtain w where w: "fst z = w @ fst y" "list_all P w" "snd y = snd z"
        by blast
      have "fst x = (ch # w) @ fst y \<and> list_all P (ch # w) \<and> snd y = snd x" using ch w by simp
      then show ?thesis by blast
    qed
  next
    assume "\<exists>w. fst x = w @ fst y \<and> list_all P w \<and> snd y = snd x"
    then obtain w where w: "fst x = w @ fst y" "list_all P w" "snd y = snd x" by blast
    show "y \<in> set (ms f s (Star r) x)"
    proof (cases w)
      case Nil
      with w have "y = x" by (simp add: prod_eq_iff)
      with step show ?thesis by simp
    next
      case (Cons ch w')
      let ?z = "(w' @ fst y, snd x)"
      have z: "?z \<in> set (ms f s r x)" unfolding one_charD[OF assms] using w Cons by simp
      have l: "length (fst ?z) < length (fst x)" using w Cons by simp
      have "y \<in> set (ms f s (Star r) ?z)" using less[OF l] w Cons by simp
      with z l step show ?thesis by blast
    qed
  qed
qed

lemma in_ms_LazyStar:
  assumes "one_char f s r P"
  shows "y \<in> set (ms f s (LazyStar r) x) \<longleftrightarrow>
     (\<exists>w. fst x = w @ fst y \<and> list_all P w \<and> snd y = snd x)"
proof (induction "length (fst x)" arbitrary: x rule: less_induct)
  case less
  have step: "y \<in> set (ms f s (LazyStar r) x) \<longleftrightarrow>
      y = x \<or> (\<exists>z \<in> set (ms f s r x). length (fst z) < length (fst x) \<and> y \<in> set (ms f s (LazyStar r) z))"
    by (subst ms.simps(8)) auto
  show ?case
  proof
    assume "y \<in> set (ms f s (LazyStar r) x)"
    with step consider "y = x"
      | z where "z \<in> set (ms f s r x)" "length (fst z) < length (fst x)" "y \<in> set (ms f s (LazyStar r) z)"
      by blast
    then show "\<exists>w. fst x = w @ fst y \<and> list_all P w \<and> snd y = snd x"
    proof cases
      case 1
      then have "fst x = [] @ fst y \<and> list_all P [] \<and> snd y = snd x" by simp
      then show ?thesis by blast
    next
      case 2
      from 2(1) obtain ch where ch: "fst x = ch # fst z" "P ch" "snd z = snd x"
        unfolding one_charD[OF assms] by blast
      from less[OF 2(2)] 2(3) obtain w where w: "fst z = w @ fst y" "list_all P w" "snd y = snd z"
        by blast
      have "fst x = (ch # w) @ fst y \<and> list_all P (ch # w) \<and> snd y = snd x" using ch w by simp
      then show ?thesis by blast
    qed
  next
    assume "\<exists>w. fst x = w @ fst y \<and> list_all P w \<and> snd y = snd x"
    then obtain w where w: "fst x = w @ fst y" "list_all P w" "snd y = snd x" by blast
    show "y \<in> set (ms f s (LazyStar r) x)"
    proof (cases w)
      case Nil
      with w have "y = x" by (simp add: prod_eq_iff)
      with step show ?thesis by simp
    next
      case (Cons ch w')
      let ?z = "(w' @ fst y, snd x)"
      have z: "?z \<in> set (ms f s r x)" unfolding one_charD[OF assms] using w Cons by simp
      have l: "length (fst ?z) < length (fst x)" using w Cons by simp
      have "y \<in> set (ms f s (LazyStar r) ?z)" using less[OF l] w Cons by simp
      with z l step show ?thesis by blast
    qed
  qed
qed

lemma in_ms_Plus:
  assumes "one_char f s r P"
  shows "y \<in> set (ms f s (Plus r) x) \<longleftrightarrow>
     (\<exists>w. fst x = w @ fst y \<and> w \<noteq> [] \<and> list_all P w \<and> snd y = snd x)"
proof
  assume "y \<in> set (ms f s (Plus r) x)"
  then obtain z where z: "z \<in> set (ms f s r x)" "y \<in> set (ms f s (Star r) z)"
    by (auto simp add: Plus_def)
  from z(1) obtain ch where ch: "fst x = ch # fst z" "P ch" "snd z = snd x"
    unfolding one_charD[OF assms] by blast
  from z(2) obtain w where w: "fst z = w @ fst y" "list_all P w" "snd y = snd z"
    unfolding in_ms_Star[OF assms] by blast
  have "fst x = (ch # w) @ fst y \<and> ch # w \<noteq> [] \<and> list_all P (ch # w) \<and> snd y = snd x"
    using ch w by simp
  then show "\<exists>w. fst x = w @ fst y \<and> w \<noteq> [] \<and> list_all P w \<and> snd y = snd x" by blast
next
  assume "\<exists>w. fst x = w @ fst y \<and> w \<noteq> [] \<and> list_all P w \<and> snd y = snd x"
  then obtain w0 where w0: "fst x = w0 @ fst y" "w0 \<noteq> []" "list_all P w0" "snd y = snd x"
    by blast
  then obtain ch w where "w0 = ch # w" by (cases w0) simp_all
  with w0 have w: "fst x = (ch # w) @ fst y" "list_all P (ch # w)" "snd y = snd x" by simp_all
  let ?z = "(w @ fst y, snd x)"
  have "?z \<in> set (ms f s r x)" unfolding one_charD[OF assms] using w by simp
  moreover have "y \<in> set (ms f s (Star r) ?z)" unfolding in_ms_Star[OF assms] using w by simp
  ultimately show "y \<in> set (ms f s (Plus r) x)" by (auto simp add: Plus_def)
qed

lemma in_ms_Group:
  "y \<in> set (ms f s (Group k r) x) \<longleftrightarrow>
     (\<exists>z \<in> set (ms f s r x).
        y = (fst z, (snd z)[k := Some (take (length (fst x) - length (fst z)) (fst x))]))"
  by auto

lemma in_ms_Backref:
  assumes "snd x ! k = Some t"
  shows "y \<in> set (ms f s (Backref k) x) \<longleftrightarrow>
     (\<exists>w. fst x = w @ fst y \<and> list_all2 (char_eq f) t w \<and> snd y = snd x)"
proof -
  let ?c = "length t \<le> length (fst x) \<and> list_all2 (char_eq f) t (take (length t) (fst x))"
  have unf: "ms f s (Backref k) x = (if ?c then [(drop (length t) (fst x), snd x)] else [])"
    using assms by simp
  show ?thesis
  proof
    assume "y \<in> set (ms f s (Backref k) x)"
    then have "?c \<and> y = (drop (length t) (fst x), snd x)"
      unfolding unf by (cases ?c) simp_all
    then have c: ?c and y: "y = (drop (length t) (fst x), snd x)" by blast+
    have "fst x = take (length t) (fst x) @ fst y \<and> list_all2 (char_eq f) t (take (length t) (fst x))
        \<and> snd y = snd x" using c y by simp
    then show "\<exists>w. fst x = w @ fst y \<and> list_all2 (char_eq f) t w \<and> snd y = snd x" by blast
  next
    assume "\<exists>w. fst x = w @ fst y \<and> list_all2 (char_eq f) t w \<and> snd y = snd x"
    then obtain w where w: "fst x = w @ fst y" "list_all2 (char_eq f) t w" "snd y = snd x" by blast
    have l: "length t = length w" using w(2) by (rule list_all2_lengthD)
    have "y = (drop (length t) (fst x), snd x)" using w l by (simp add: prod_eq_iff)
    moreover have ?c using w l by simp
    ultimately show "y \<in> set (ms f s (Backref k) x)" unfolding unf by simp
  qed
qed

lemma in_ms_seq_Nil: "y \<in> set (ms f s (seq []) x) \<longleftrightarrow> y = x"
  by simp

lemma in_ms_seq_append:
  "y \<in> set (ms f s (seq (rs @ rs')) x)
     \<longleftrightarrow> (\<exists>z \<in> set (ms f s (seq rs) x). y \<in> set (ms f s (seq rs') z))"
proof (induction rs arbitrary: x)
  case Nil
  show ?case by simp
next
  case (Cons r rs)
  have "y \<in> set (ms f s (seq ((r # rs) @ rs')) x)
      \<longleftrightarrow> (\<exists>z \<in> set (ms f s r x). \<exists>z' \<in> set (ms f s (seq rs) z). y \<in> set (ms f s (seq rs') z'))"
    unfolding append_Cons in_ms_seq_Cons Cons.IH ..
  also have "\<dots> \<longleftrightarrow> (\<exists>z' \<in> set (ms f s (seq (r # rs)) x). y \<in> set (ms f s (seq rs') z'))"
    by (auto simp add: ms_seq_Cons)
  finally show ?case .
qed

text \<open>A group around a pattern that consumes a text \<open>w\<close> with \<open>Q w\<close> records \<open>w\<close>.\<close>

lemma consumesD:
  "consumes f s r Q \<Longrightarrow>
     y \<in> set (ms f s r x) \<longleftrightarrow> (\<exists>w. fst x = w @ fst y \<and> Q w \<and> snd y = snd x)"
  unfolding consumes_def by blast

lemma consumes_lit: "consumes f s (lit t) (list_all2 (char_eq f) t)"
  unfolding consumes_def by (simp only: in_ms_lit) simp

lemma consumes_Star: "one_char f s r P \<Longrightarrow> consumes f s (Star r) (list_all P)"
  unfolding consumes_def by (simp only: in_ms_Star) simp

lemma consumes_LazyStar: "one_char f s r P \<Longrightarrow> consumes f s (LazyStar r) (list_all P)"
  unfolding consumes_def by (simp only: in_ms_LazyStar) simp

lemma consumes_Plus: "one_char f s r P \<Longrightarrow> consumes f s (Plus r) (\<lambda>w. w \<noteq> [] \<and> list_all P w)"
  unfolding consumes_def by (simp only: in_ms_Plus) simp

lemma consumes_one_char: "one_char f s r P \<Longrightarrow> consumes f s r (\<lambda>w. \<exists>ch. w = [ch] \<and> P ch)"
  unfolding consumes_def one_char_def by auto

lemma in_ms_Group_consumes:
  assumes "consumes f s r Q"
  shows "y \<in> set (ms f s (Group k r) x) \<longleftrightarrow>
     (\<exists>w. fst x = w @ fst y \<and> Q w \<and> snd y = (snd x)[k := Some w])"
proof
  assume "y \<in> set (ms f s (Group k r) x)"
  then obtain z where z: "z \<in> set (ms f s r x)"
    "y = (fst z, (snd z)[k := Some (take (length (fst x) - length (fst z)) (fst x))])"
    unfolding in_ms_Group by blast
  from z(1) obtain w where w: "fst x = w @ fst z" "Q w" "snd z = snd x"
    unfolding consumesD[OF assms] by blast
  have "fst x = w @ fst y \<and> Q w \<and> snd y = (snd x)[k := Some w]" using w z(2) by simp
  then show "\<exists>w. fst x = w @ fst y \<and> Q w \<and> snd y = (snd x)[k := Some w]" by blast
next
  assume "\<exists>w. fst x = w @ fst y \<and> Q w \<and> snd y = (snd x)[k := Some w]"
  then obtain w where w: "fst x = w @ fst y" "Q w" "snd y = (snd x)[k := Some w]" by blast
  let ?z = "(fst y, snd x)"
  have "?z \<in> set (ms f s r x)" unfolding consumesD[OF assms] using w by simp
  moreover have "y = (fst ?z, (snd ?z)[k := Some (take (length (fst x) - length (fst ?z)) (fst x))])"
    using w by (simp add: prod_eq_iff)
  ultimately show "y \<in> set (ms f s (Group k r) x)" unfolding in_ms_Group by blast
qed

lemma of_char_canonicalize:
  "(of_char (canonicalize c) :: nat)
     = (if (97 \<le> (of_char c :: nat) \<and> (of_char c :: nat) \<le> 122)
           \<or> (224 \<le> (of_char c :: nat) \<and> (of_char c :: nat) \<le> 254 \<and> (of_char c :: nat) \<noteq> 247)
        then of_char c - 32 else of_char c)"
  by (auto simp add: canonicalize_def Let_def)

lemma canonicalize_caseless:
  assumes "caseless c"
  shows "canonicalize c = canonicalize ch \<longleftrightarrow> ch = c"
proof -
  have "(of_char (canonicalize c) :: nat) = of_char (canonicalize ch) \<longleftrightarrow> (of_char ch :: nat) = of_char c"
    using assms unfolding of_char_canonicalize caseless_def Let_def by auto
  then show ?thesis by (metis of_char_eq_iff)
qed

lemma char_eq_i: "char_eq flags_i a b \<longleftrightarrow> canonicalize a = canonicalize b"
  by (simp add: char_eq_def flags_i_def)

lemma char_eq_caseless: "caseless c \<Longrightarrow> char_eq flags_i c ch \<longleftrightarrow> ch = c"
  by (simp add: char_eq_i canonicalize_caseless)

lemma list_all2_char_eq_i: "list_all2 (char_eq flags_i) = same_letters"
  by (intro ext) (simp add: same_letters_def char_eq_i[abs_def])

lemma one_char_white: "one_char f s white is_space"
proof -
  have "in_class f [CSpace] = is_space" by (intro ext) (simp add: in_class_def)
  with one_char_Cls[of f s "[CSpace]"] show ?thesis by (simp add: white_def)
qed

lemma one_char_anychar: "one_char f s anychar (\<lambda>_. True)"
proof -
  have "in_class f [CSpace, CNotSpace] = (\<lambda>_. True)" by (intro ext) (auto simp add: in_class_def)
  with one_char_Cls[of f s "[CSpace, CNotSpace]"] show ?thesis by (simp add: anychar_def)
qed

lemma one_char_not: "caseless c \<Longrightarrow> one_char flags_i s (NCls [CChar c]) (\<lambda>ch. ch \<noteq> c)"
proof -
  assume c: "caseless c"
  have "(\<lambda>ch. \<not> in_class flags_i [CChar c] ch) = (\<lambda>ch. ch \<noteq> c)"
    by (intro ext) (simp add: in_class_def char_eq_caseless[OF c])
  with one_char_NCls[of flags_i s "[CChar c]"] show ?thesis by simp
qed

lemma one_char_is: "caseless c \<Longrightarrow> one_char flags_i s (Chr c) (\<lambda>ch. ch = c)"
proof -
  assume c: "caseless c"
  have "char_eq flags_i c = (\<lambda>ch. ch = c)" by (intro ext) (simp add: char_eq_caseless[OF c])
  with one_char_Chr[of flags_i s c] show ?thesis by simp
qed

lemma one_char_digit: "one_char f s (Cls [CDigit]) is_digit"
proof -
  have "in_class f [CDigit] = is_digit" by (intro ext) (simp add: in_class_def)
  with one_char_Cls[of f s "[CDigit]"] show ?thesis by simp
qed

lemma list_all_not: "list_all (\<lambda>ch. ch \<noteq> c) w \<longleftrightarrow> c \<notin> set w"
  by (induction w) auto

text \<open>
  The part the four segment patterns share: a literal, white space, group 1 up to a
  delimiter, the delimiter, group 2.
\<close>

lemma in_ms_head:
  assumes "caseless dl"
  shows "z \<in> set (ms flags_i s (seq [lit l, Star white, Group 1 (Plus (NCls [CChar dl])), Chr dl,
                                      Group 2 (LazyStar anychar)]) x)
     \<longleftrightarrow> (\<exists>ot w g1 g2. fst x = ot @ w @ g1 @ [dl] @ g2 @ fst z \<and> same_letters l ot
            \<and> list_all is_space w \<and> g1 \<noteq> [] \<and> dl \<notin> set g1
            \<and> snd z = (snd x)[1 := Some g1, 2 := Some g2])"
    (is "?L \<longleftrightarrow> ?R")
proof
  assume ?L
  then obtain z1 z2 z3 z4 where
    1: "z1 \<in> set (ms flags_i s (lit l) x)" and
    2: "z2 \<in> set (ms flags_i s (Star white) z1)" and
    3: "z3 \<in> set (ms flags_i s (Group 1 (Plus (NCls [CChar dl]))) z2)" and
    4: "z4 \<in> set (ms flags_i s (Chr dl) z3)" and
    5: "z \<in> set (ms flags_i s (Group 2 (LazyStar anychar)) z4)"
    unfolding in_ms_seq_Cons in_ms_seq_Nil by blast
  from 1 obtain ot where ot: "fst x = ot @ fst z1" "same_letters l ot" "snd z1 = snd x"
    unfolding in_ms_lit list_all2_char_eq_i by blast
  from 2 obtain w where w: "fst z1 = w @ fst z2" "list_all is_space w" "snd z2 = snd z1"
    unfolding in_ms_Star[OF one_char_white] by blast
  from 3 obtain g1 where g1: "fst z2 = g1 @ fst z3" "g1 \<noteq> []" "list_all (\<lambda>ch. ch \<noteq> dl) g1"
    "snd z3 = (snd z2)[1 := Some g1]"
    unfolding in_ms_Group_consumes[OF consumes_Plus[OF one_char_not[OF assms]]] by blast
  from 4 have 4: "fst z3 = dl # fst z4" "snd z4 = snd z3"
    unfolding one_charD[OF one_char_is[OF assms]] by auto
  from 5 obtain g2 where g2: "fst z4 = g2 @ fst z" "snd z = (snd z4)[2 := Some g2]"
    unfolding in_ms_Group_consumes[OF consumes_LazyStar[OF one_char_anychar]] by blast
  have "fst x = ot @ w @ g1 @ [dl] @ g2 @ fst z \<and> same_letters l ot
            \<and> list_all is_space w \<and> g1 \<noteq> [] \<and> dl \<notin> set g1
            \<and> snd z = (snd x)[1 := Some g1, 2 := Some g2]"
    using ot w g1 4 g2 by (simp add: list_all_not)
  then show ?R by blast
next
  assume ?R
  then obtain ot w g1 g2 where r: "fst x = ot @ w @ g1 @ [dl] @ g2 @ fst z" "same_letters l ot"
    "list_all is_space w" "g1 \<noteq> []" "dl \<notin> set g1" "snd z = (snd x)[1 := Some g1, 2 := Some g2]"
    by blast
  let ?z1 = "(w @ g1 @ [dl] @ g2 @ fst z, snd x)"
  let ?z2 = "(g1 @ [dl] @ g2 @ fst z, snd x)"
  let ?z3 = "([dl] @ g2 @ fst z, (snd x)[1 := Some g1])"
  let ?z4 = "(g2 @ fst z, (snd x)[1 := Some g1])"
  have 1: "?z1 \<in> set (ms flags_i s (lit l) x)"
    unfolding in_ms_lit list_all2_char_eq_i using r by simp
  have 2: "?z2 \<in> set (ms flags_i s (Star white) ?z1)"
    unfolding in_ms_Star[OF one_char_white] using r by simp
  have 3: "?z3 \<in> set (ms flags_i s (Group 1 (Plus (NCls [CChar dl]))) ?z2)"
    unfolding in_ms_Group_consumes[OF consumes_Plus[OF one_char_not[OF assms]]]
    using r by (simp add: list_all_not)
  have 4: "?z4 \<in> set (ms flags_i s (Chr dl) ?z3)"
    unfolding one_charD[OF one_char_is[OF assms]] by simp
  have 5: "z \<in> set (ms flags_i s (Group 2 (LazyStar anychar)) ?z4)"
    unfolding in_ms_Group_consumes[OF consumes_LazyStar[OF one_char_anychar]]
    using r by (simp add: list_all_iff)
  show ?L unfolding in_ms_seq_Cons in_ms_seq_Nil using 1 2 3 4 5 by blast
qed

lemma caseless_delimiter: "caseless (delimiter st)"
  by (cases st) (simp_all add: caseless_def)

lemma strategy_source:
  "source (strategy_regex st)
     = seq ([lit (opener st), Star white, Group 1 (Plus (NCls [CChar (delimiter st)])),
             Chr (delimiter st), Group 2 (LazyStar anychar)] @ closer st)"
  by (cases st) (simp_all add: segRegex1_def segRegex2_def segRegex3_def plainTextRegex_def)

lemma strategy_flags: "re_flags (strategy_regex st) = flags_i" "ngroups (strategy_regex st) = 2"
  by (cases st; simp add: segRegex1_def segRegex2_def segRegex3_def plainTextRegex_def)+

lemma same_letters_length: "same_letters a b \<Longrightarrow> length a = length b"
  unfolding same_letters_def by (rule list_all2_lengthD)

lemma in_ms_lookahead:
  "y \<in> set (ms flags_i s (Lookahead (Alt (lit t) Eol)) x)
     \<longleftrightarrow> y = x \<and> (fst x = [] \<or> same_letters t (take (length t) (fst x)))"
proof -
  have lit_snd: "z \<in> set (ms flags_i s (lit t) x) \<Longrightarrow> snd z = snd x" for z
    unfolding in_ms_lit by blast
  have lit_ex: "ms flags_i s (lit t) x \<noteq> [] \<longleftrightarrow> same_letters t (take (length t) (fst x))"
  proof
    assume "ms flags_i s (lit t) x \<noteq> []"
    then obtain z where "z \<in> set (ms flags_i s (lit t) x)" by (cases "ms flags_i s (lit t) x") auto
    then obtain w where w: "fst x = w @ fst z" "same_letters t w"
      unfolding in_ms_lit list_all2_char_eq_i by blast
    from same_letters_length[OF w(2)] w show "same_letters t (take (length t) (fst x))" by simp
  next
    assume a: "same_letters t (take (length t) (fst x))"
    let ?z = "(drop (length t) (fst x), snd x)"
    have "length t \<le> length (fst x)" using same_letters_length[OF a] by simp
    then have "fst x = take (length t) (fst x) @ fst ?z \<and> same_letters t (take (length t) (fst x))
        \<and> snd ?z = snd x" using a by simp
    then have "?z \<in> set (ms flags_i s (lit t) x)"
      unfolding in_ms_lit list_all2_char_eq_i by blast
    then show "ms flags_i s (lit t) x \<noteq> []" by auto
  qed
  have eol: "ms flags_i s Eol x = (if fst x = [] then [x] else [])"
    by (cases "fst x") (simp_all add: flags_i_def)
  have la: "ms flags_i s (Lookahead (Alt (lit t) Eol)) x
      = (case ms flags_i s (lit t) x @ ms flags_i s Eol x of [] \<Rightarrow> [] | y # _ \<Rightarrow> [(fst x, snd y)])"
    by (simp only: ms.simps(5,11))
  show ?thesis
  proof (cases "ms flags_i s (lit t) x")
    case Nil
    with lit_ex have n: "\<not> same_letters t (take (length t) (fst x))" by simp
    have e: "ms flags_i s (Lookahead (Alt (lit t) Eol)) x = (if fst x = [] then [x] else [])"
      unfolding la Nil append_Nil eol by (cases "fst x = []") (simp_all add: prod_eq_iff)
    show ?thesis unfolding e using n by (cases "fst x = []") auto
  next
    case (Cons z zs)
    then have "snd z = snd x" using lit_snd[of z] by simp
    then have e: "ms flags_i s (Lookahead (Alt (lit t) Eol)) x = [x]"
      unfolding la Cons append_Cons by simp
    from Cons lit_ex have "same_letters t (take (length t) (fst x))" by simp
    then show ?thesis unfolding e by auto
  qed
qed

lemma in_ms_closer:
  assumes "snd z ! 1 = Some g1"
  shows "y \<in> set (ms flags_i s (seq (closer st)) z)
     \<longleftrightarrow> (\<exists>ct v b. fst z = closer_text st ct v b @ fst y \<and> closer_ok st g1 ct v b (fst y)
            \<and> snd y = snd z)"
    (is "?L \<longleftrightarrow> ?R")
proof (cases st)
  case Regex1
  have c: "caseless (CHR ''>'')" by (simp add: caseless_def)
  show ?thesis
  proof
    assume ?L
    then obtain z1 z2 z3 where
      1: "z1 \<in> set (ms flags_i s (lit ''</segment:'') z)" and
      2: "z2 \<in> set (ms flags_i s (Star white) z1)" and
      3: "z3 \<in> set (ms flags_i s (Backref 1) z2)" and
      4: "y \<in> set (ms flags_i s (Chr (CHR ''>'')) z3)"
      unfolding Regex1 closer.simps in_ms_seq_Cons in_ms_seq_Nil by blast
    from 1 obtain ct where ct: "fst z = ct @ fst z1" "same_letters ''</segment:'' ct" "snd z1 = snd z"
      unfolding in_ms_lit list_all2_char_eq_i by blast
    from 2 obtain v where v: "fst z1 = v @ fst z2" "list_all is_space v" "snd z2 = snd z1"
      unfolding in_ms_Star[OF one_char_white] by blast
    have "snd z2 ! 1 = Some g1" using assms ct v by simp
    from 3 obtain b where b: "fst z2 = b @ fst z3" "same_letters g1 b" "snd z3 = snd z2"
      unfolding in_ms_Backref[OF \<open>snd z2 ! 1 = Some g1\<close>] list_all2_char_eq_i by blast
    from 4 have 4: "fst z3 = CHR ''>'' # fst y" "snd y = snd z3"
      unfolding one_charD[OF one_char_is[OF c]] by auto
    have "fst z = closer_text st ct v b @ fst y \<and> closer_ok st g1 ct v b (fst y) \<and> snd y = snd z"
      using ct v b 4 Regex1 by simp
    then show ?R by blast
  next
    assume ?R
    then obtain ct v b where r: "fst z = ct @ v @ b @ ''>'' @ fst y"
      "same_letters ''</segment:'' ct" "list_all is_space v" "same_letters g1 b" "snd y = snd z"
      using Regex1 by auto
    let ?z1 = "(v @ b @ ''>'' @ fst y, snd z)"
    let ?z2 = "(b @ ''>'' @ fst y, snd z)"
    let ?z3 = "(''>'' @ fst y, snd z)"
    have 1: "?z1 \<in> set (ms flags_i s (lit ''</segment:'') z)"
      unfolding in_ms_lit list_all2_char_eq_i using r by simp
    have 2: "?z2 \<in> set (ms flags_i s (Star white) ?z1)"
      unfolding in_ms_Star[OF one_char_white] using r by simp
    have k: "snd ?z2 ! 1 = Some g1" using assms by simp
    have 3: "?z3 \<in> set (ms flags_i s (Backref 1) ?z2)"
      unfolding in_ms_Backref[OF k] list_all2_char_eq_i using r by simp
    have 4: "y \<in> set (ms flags_i s (Chr (CHR ''>'')) ?z3)"
      unfolding one_charD[OF one_char_is[OF c]] using r by simp
    show ?L unfolding Regex1 closer.simps in_ms_seq_Cons in_ms_seq_Nil using 1 2 3 4 by blast
  qed
next
  case Regex2
  have c: "caseless (CHR ''>'')" by (simp add: caseless_def)
  show ?thesis
  proof
    assume ?L
    then obtain z1 z2 where
      1: "z1 \<in> set (ms flags_i s (lit ''</segment:'') z)" and
      2: "z2 \<in> set (ms flags_i s (Plus (NCls [CChar (CHR ''>'')])) z1)" and
      4: "y \<in> set (ms flags_i s (Chr (CHR ''>'')) z2)"
      unfolding Regex2 closer.simps in_ms_seq_Cons in_ms_seq_Nil by blast
    from 1 obtain ct where ct: "fst z = ct @ fst z1" "same_letters ''</segment:'' ct" "snd z1 = snd z"
      unfolding in_ms_lit list_all2_char_eq_i by blast
    from 2 obtain b where b: "fst z1 = b @ fst z2" "b \<noteq> []" "list_all (\<lambda>ch. ch \<noteq> CHR ''>'') b"
      "snd z2 = snd z1"
      unfolding consumesD[OF consumes_Plus[OF one_char_not[OF c]]] by blast
    from 4 have 4: "fst z2 = CHR ''>'' # fst y" "snd y = snd z2"
      unfolding one_charD[OF one_char_is[OF c]] by auto
    have "fst z = closer_text st ct [] b @ fst y \<and> closer_ok st g1 ct [] b (fst y) \<and> snd y = snd z"
      using ct b 4 Regex2 by (simp add: list_all_not)
    then show ?R by blast
  next
    assume ?R
    then obtain ct b where r: "fst z = ct @ b @ ''>'' @ fst y"
      "same_letters ''</segment:'' ct" "b \<noteq> []" "CHR ''>'' \<notin> set b" "snd y = snd z"
      using Regex2 by auto
    let ?z1 = "(b @ ''>'' @ fst y, snd z)"
    let ?z2 = "(''>'' @ fst y, snd z)"
    have 1: "?z1 \<in> set (ms flags_i s (lit ''</segment:'') z)"
      unfolding in_ms_lit list_all2_char_eq_i using r by simp
    have 2: "?z2 \<in> set (ms flags_i s (Plus (NCls [CChar (CHR ''>'')])) ?z1)"
      unfolding consumesD[OF consumes_Plus[OF one_char_not[OF c]]] using r by (simp add: list_all_not)
    have 4: "y \<in> set (ms flags_i s (Chr (CHR ''>'')) ?z2)"
      unfolding one_charD[OF one_char_is[OF c]] using r by simp
    show ?L unfolding Regex2 closer.simps in_ms_seq_Cons in_ms_seq_Nil using 1 2 4 by blast
  qed
next
  case Regex3
  show ?thesis
    unfolding Regex3 closer.simps in_ms_seq_Cons in_ms_seq_Nil
    by (simp add: in_ms_lit list_all2_char_eq_i)
next
  case PlainText
  have l: "length ''Segment:'' = 8" by simp
  have "?L \<longleftrightarrow> (\<exists>z' \<in> set (ms flags_i s (Lookahead (Alt (lit ''Segment:'') Eol)) z). y = z')"
    unfolding PlainText closer.simps in_ms_seq_Cons in_ms_seq_Nil ..
  also have "\<dots> \<longleftrightarrow> y \<in> set (ms flags_i s (Lookahead (Alt (lit ''Segment:'') Eol)) z)" by blast
  also have "\<dots> \<longleftrightarrow> y = z \<and> (fst z = [] \<or> same_letters ''Segment:'' (take 8 (fst z)))"
    by (rule in_ms_lookahead[of y s "''Segment:''" z, unfolded l])
  also have "\<dots> \<longleftrightarrow> ?R" unfolding PlainText by (auto simp add: prod_eq_iff)
  finally show ?thesis .
qed

text \<open>The end states of a match of a strategy's pattern.\<close>

lemma in_ms_strategy:
  assumes "1 < length (snd x)"
  shows "y \<in> set (ms flags_i s (source (strategy_regex st)) x)
     \<longleftrightarrow> (\<exists>ot w g1 g2 ct v b.
            fst x = occurrence st ot w g1 g2 ct v b @ fst y
            \<and> well_formed st ot w g1 ct v b (fst y)
            \<and> snd y = (snd x)[1 := Some g1, 2 := Some g2])"
    (is "?L \<longleftrightarrow> ?R")
proof
  assume ?L
  then obtain z where z: "z \<in> set (ms flags_i s
        (seq [lit (opener st), Star white, Group 1 (Plus (NCls [CChar (delimiter st)])),
              Chr (delimiter st), Group 2 (LazyStar anychar)]) x)"
    and y: "y \<in> set (ms flags_i s (seq (closer st)) z)"
    unfolding strategy_source in_ms_seq_append by blast
  from z obtain ot w g1 g2 where h: "fst x = ot @ w @ g1 @ [delimiter st] @ g2 @ fst z"
    "same_letters (opener st) ot" "list_all is_space w" "g1 \<noteq> []" "delimiter st \<notin> set g1"
    "snd z = (snd x)[1 := Some g1, 2 := Some g2]"
    unfolding in_ms_head[OF caseless_delimiter] by blast
  have k: "snd z ! 1 = Some g1" using h(6) assms by simp
  from y obtain ct v b where c: "fst z = closer_text st ct v b @ fst y"
    "closer_ok st g1 ct v b (fst y)" "snd y = snd z"
    unfolding in_ms_closer[OF k] by blast
  have "fst x = occurrence st ot w g1 g2 ct v b @ fst y
            \<and> well_formed st ot w g1 ct v b (fst y)
            \<and> snd y = (snd x)[1 := Some g1, 2 := Some g2]"
    using h c by (simp add: occurrence_def well_formed_def)
  then show ?R by blast
next
  assume ?R
  then obtain ot w g1 g2 ct v b where r: "fst x = occurrence st ot w g1 g2 ct v b @ fst y"
    "well_formed st ot w g1 ct v b (fst y)" "snd y = (snd x)[1 := Some g1, 2 := Some g2]"
    by blast
  let ?z = "(closer_text st ct v b @ fst y, (snd x)[1 := Some g1, 2 := Some g2])"
  have z: "?z \<in> set (ms flags_i s
        (seq [lit (opener st), Star white, Group 1 (Plus (NCls [CChar (delimiter st)])),
              Chr (delimiter st), Group 2 (LazyStar anychar)]) x)"
    unfolding in_ms_head[OF caseless_delimiter]
    using r by (intro exI[of _ ot] exI[of _ w] exI[of _ g1] exI[of _ g2])
               (simp add: occurrence_def well_formed_def)
  have k: "snd ?z ! 1 = Some g1" using assms by simp
  have "y \<in> set (ms flags_i s (seq (closer st)) ?z)"
    unfolding in_ms_closer[OF k] using r
    by (intro exI[of _ ct] exI[of _ v] exI[of _ b]) (simp add: well_formed_def)
  with z show ?L unfolding strategy_source in_ms_seq_append by blast
qed

lemma search_from_head:
  "search_from f r n s i = Some m \<Longrightarrow>
     \<exists>y ys. i \<le> index m \<and> index m \<le> length s
       \<and> ms f s r (drop (index m) s, replicate (Suc n) None) = y # ys
       \<and> end_index m = length s - length (fst y)
       \<and> groups m = (snd y)[0 := Some (take (length s - length (fst y) - index m)
                                            (drop (index m) s))]"
proof (induction f r n s i rule: search_from.induct)
  case (1 f r n s i)
  show ?case
  proof (cases "length s < i")
    case True
    with "1.prems" show ?thesis by (simp add: search_from.simps[of f r n s i])
  next
    case le: False
    show ?thesis
    proof (cases "ms f s r (drop i s, replicate (Suc n) None)")
      case Nil
      with le "1.prems" have "search_from f r n s (Suc i) = Some m"
        by (simp add: search_from.simps[of f r n s i])
      from "1.IH"[OF le Nil this] show ?thesis by (meson Suc_leD)
    next
      case (Cons y ys)
      from le Cons "1.prems" have m: "m = \<lparr>index = i, end_index = length s - length (fst y),
                     groups = (snd y)[0 := Some (take (length s - length (fst y) - i) (drop i s))]\<rparr>"
        by (simp add: search_from.simps[of f r n s i])
      have "i \<le> index m \<and> index m \<le> length s
       \<and> ms f s r (drop (index m) s, replicate (Suc n) None) = y # ys
       \<and> end_index m = length s - length (fst y)
       \<and> groups m = (snd y)[0 := Some (take (length s - length (fst y) - index m)
                                            (drop (index m) s))]"
        unfolding m using le Cons by simp
      then show ?thesis by blast
    qed
  qed
qed

lemma search_from_finds:
  assumes "ms f s r (drop j s, replicate (Suc n) None) \<noteq> []" and "j \<le> length s"
  shows "i \<le> j \<Longrightarrow> search_from f r n s i \<noteq> None"
proof (induction "j - i" arbitrary: i)
  case 0
  then have "i = j" by simp
  with assms show ?case
    by (subst search_from.simps) (simp del: replicate.simps split: list.splits)
next
  case (Suc k)
  then have "k = j - Suc i" "Suc i \<le> j" by simp_all
  from Suc(1)[OF this] have "search_from f r n s (Suc i) \<noteq> None" .
  moreover have "\<not> length s < i" using Suc(3) assms(2) by simp
  ultimately show ?case
    by (subst search_from.simps) (simp del: replicate.simps split: list.splits)
qed

lemma strategy_matches_exec:
  "m \<in> set (strategy_matches st d L) \<Longrightarrow> \<exists>L'. exec (strategy_regex st) d L' = Some m"
proof (induction st d L rule: strategy_matches.induct)
  case (1 st d L)
  show ?case
  proof (cases "exec (strategy_regex st) d L")
    case None
    with "1.prems" show ?thesis by (simp add: strategy_matches.simps[of st d L])
  next
    case (Some m')
    with "1.prems" have "m = m' \<or> m \<in> set (strategy_matches st d (end_index m'))"
      by (simp add: strategy_matches.simps[of st d L])
    then show ?thesis
    proof
      assume "m = m'"
      with Some show ?thesis by blast
    next
      assume "m \<in> set (strategy_matches st d (end_index m'))"
      from "1.IH"[OF Some this] show ?thesis .
    qed
  qed
qed

text \<open>Every match of a strategy is an occurrence of its form, with the groups as its parts.\<close>

lemma strategy_match_sound:
  assumes "m \<in> set (strategy_matches st d L)"
  shows "\<exists>ot w ct v b.
           index m \<le> end_index m \<and> end_index m \<le> length d
         \<and> take (end_index m - index m) (drop (index m) d)
             = occurrence st ot w (grp (groups m) 1) (grp (groups m) 2) ct v b
         \<and> well_formed st ot w (grp (groups m) 1) ct v b (drop (end_index m) d)"
proof -
  from strategy_matches_exec[OF assms] obtain L' where
    "search_from flags_i (source (strategy_regex st)) 2 d L' = Some m"
    by (auto simp add: exec_def strategy_flags)
  from search_from_head[OF this] obtain y ys where
    i: "index m \<le> length d"
    and h: "ms flags_i d (source (strategy_regex st)) (drop (index m) d, replicate (Suc 2) None) = y # ys"
    and e: "end_index m = length d - length (fst y)"
    and g: "groups m = (snd y)[0 := Some (take (length d - length (fst y) - index m)
                                            (drop (index m) d))]"
    by blast
  let ?x = "(drop (index m) d, replicate (Suc 2) (None :: string option))"
  have "y \<in> set (ms flags_i d (source (strategy_regex st)) ?x)" using h by simp
  moreover have "1 < length (snd ?x)" by simp
  ultimately obtain ot w g1 g2 ct v b where
    o: "fst ?x = occurrence st ot w g1 g2 ct v b @ fst y"
    and wf: "well_formed st ot w g1 ct v b (fst y)"
    and c: "snd y = (snd ?x)[1 := Some g1, 2 := Some g2]"
    using in_ms_strategy[of ?x y d st] by blast
  have dr: "drop (index m) d = occurrence st ot w g1 g2 ct v b @ fst y" using o by simp
  then have len: "length d - index m = length (occurrence st ot w g1 g2 ct v b) + length (fst y)"
    by (metis length_append length_drop)
  have en: "end_index m = index m + length (occurrence st ot w g1 g2 ct v b)"
    using e len i by simp
  have 1: "grp (groups m) 1 = g1" "grp (groups m) 2 = g2"
    unfolding g c by (simp_all add: grp_def)
  have 2: "take (end_index m - index m) (drop (index m) d) = occurrence st ot w g1 g2 ct v b"
    unfolding dr en by simp
  have "drop (end_index m) d = drop (length (occurrence st ot w g1 g2 ct v b)) (drop (index m) d)"
    unfolding en by (simp add: add.commute)
  then have 3: "drop (end_index m) d = fst y" unfolding dr by simp
  have "index m \<le> end_index m \<and> end_index m \<le> length d
         \<and> take (end_index m - index m) (drop (index m) d)
             = occurrence st ot w (grp (groups m) 1) (grp (groups m) 2) ct v b
         \<and> well_formed st ot w (grp (groups m) 1) ct v b (drop (end_index m) d)"
    unfolding 1 2 3 using wf en e by simp
  then show ?thesis by blast
qed

text \<open>A text that holds an occurrence of the form of a strategy has a match of it.\<close>

lemma strategy_match_complete:
  assumes "d = pre @ occurrence st ot w g1 g2 ct v b @ post"
    and "well_formed st ot w g1 ct v b post"
  shows "strategy_matches st d 0 \<noteq> []"
proof -
  let ?x = "(drop (length pre) d, replicate (Suc 2) (None :: string option))"
  let ?y = "(post, (snd ?x)[1 := Some g1, 2 := Some g2])"
  have "fst ?x = occurrence st ot w g1 g2 ct v b @ fst ?y
      \<and> well_formed st ot w g1 ct v b (fst ?y)
      \<and> snd ?y = (snd ?x)[1 := Some g1, 2 := Some g2]"
    using assms by simp
  moreover have "1 < length (snd ?x)" by simp
  ultimately have "?y \<in> set (ms flags_i d (source (strategy_regex st)) ?x)"
    using in_ms_strategy[of ?x ?y d st] by blast
  then have "ms flags_i d (source (strategy_regex st)) ?x \<noteq> []" by auto
  moreover have "length pre \<le> length d" using assms(1) by simp
  ultimately have "search_from flags_i (source (strategy_regex st)) 2 d 0 \<noteq> None"
    by (intro search_from_finds[of flags_i d _ "length pre" 2]) simp_all
  then obtain m where "exec (strategy_regex st) d 0 = Some m"
    by (auto simp add: exec_def strategy_flags)
  then show ?thesis by (simp add: strategy_matches.simps[of st d 0])
qed


section \<open>Properties of the report parser and the score extractor\<close>

subsection \<open>The patterns of the parser\<close>

text \<open>Every group the code reads takes part in every match of its pattern.\<close>

lemma parser_groups_take_part:
  "sets_group 1 (source (section_regex header))"
  "sets_group 1 (source scoreLineRegex)" "sets_group 2 (source scoreLineRegex)"
  "sets_group 1 (source bulletLineRegex)" "sets_group 2 (source bulletLineRegex)"
  "sets_group 1 (source speakerRegex)" "sets_group 2 (source speakerRegex)"
  "sets_group 1 (source (strategy_regex st))" "sets_group 2 (source (strategy_regex st))"
  by (cases st; simp add: section_regex_def scoreLineRegex_def bulletLineRegex_def speakerRegex_def
      segRegex1_def segRegex2_def segRegex3_def plainTextRegex_def)+

text \<open>A text in which \<open>##\<close> does not occur has none of the section headers.\<close>

lemma ms_marker:
  "ms f s (lit ''##'') x \<noteq> [] \<Longrightarrow> prefix ''##'' (fst x)"
  by (cases x; cases "fst x"; cases "tl (fst x)")
     (auto simp add: lit_def char_eq_hash split: list.splits if_splits)

lemma no_marker_no_section:
  assumes "\<not> sublist ''##'' s"
  shows "str_match s (section_regex header) = None"
proof -
  have "ms flags_i s (source (section_regex header)) (drop i s, replicate (Suc 1) None) = []" for i
  proof -
    have "\<not> prefix ''##'' (drop i s)"
    proof
      assume "prefix ''##'' (drop i s)"
      then obtain t where "drop i s = ''##'' @ t" by (auto simp add: prefix_def)
      then have "s = take i s @ ''##'' @ t" by (metis append_take_drop_id)
      then have "sublist ''##'' s" unfolding sublist_def by blast
      with assms show False by simp
    qed
    with ms_marker[of flags_i s "(drop i s, replicate (Suc 1) None)"]
    have "ms flags_i s (lit ''##'') (drop i s, replicate (Suc 1) None) = []" by auto
    then show ?thesis by (simp add: section_regex_def del: replicate.simps)
  qed
  from search_from_no_match[of flags_i s "source (section_regex header)" 1 0, OF this]
  show ?thesis by (simp add: str_match_def exec_def section_regex_def)
qed

subsection \<open>Scores\<close>

lemma copy_entries [simp]: "map (\<lambda>s. \<lparr>category = category s, score = score s\<rparr>) xs = xs"
  by (induction xs) simp_all

lemma build_defaultMap_snoc:
  "build_defaultMap (es @ [e]) = (build_defaultMap es)(category e \<mapsto> length es)"
  by (simp add: build_defaultMap_def)

lemma build_defaultMap_sound:
  "build_defaultMap es c = Some i \<Longrightarrow> i < length es \<and> category (es ! i) = c"
proof (induction es arbitrary: i rule: rev_induct)
  case Nil
  then show ?case by (simp add: build_defaultMap_def)
next
  case (snoc e es)
  show ?case
  proof (cases "category e = c")
    case True
    with snoc.prems show ?thesis by (auto simp add: build_defaultMap_snoc nth_append)
  next
    case False
    with snoc.prems have "build_defaultMap es c = Some i" by (simp add: build_defaultMap_snoc)
    from snoc.IH[OF this] show ?thesis by (simp add: nth_append)
  qed
qed

lemma build_defaultMap_complete:
  "c \<in> set (map category es) \<Longrightarrow> build_defaultMap es c \<noteq> None"
proof (induction es rule: rev_induct)
  case Nil
  then show ?case by simp
next
  case (snoc e es)
  then show ?case by (cases "category e = c") (auto simp add: build_defaultMap_snoc)
qed

text \<open>The entry that stands for a table entry after the merge has its category.\<close>

lemma find_category:
  "find (\<lambda>p. category p = c) ps = Some p \<Longrightarrow> category p = c \<and> p \<in> set ps"
  by (induction ps) (auto split: if_splits)

lemma merged_scores_Nil: "merged_scores table [] = table"
  by (simp add: merged_scores_def)

lemma merged_scores_categories:
  "map category (take (length table) (merged_scores table ps)) = map category table"
proof -
  have "category (case find (\<lambda>p. category p = category d) (rev ps) of None \<Rightarrow> d | Some p \<Rightarrow> p)
          = category d" for d
    by (cases "find (\<lambda>p. category p = category d) (rev ps)") (auto dest: find_category)
  then show ?thesis by (simp add: merged_scores_def comp_def)
qed

lemma merged_scores_length: "length table \<le> length (merged_scores table ps)"
  by (simp add: merged_scores_def)

lemma merged_scores_members:
  "e \<in> set (merged_scores table ps) \<Longrightarrow> e \<in> set table \<or> e \<in> set ps"
proof -
  assume "e \<in> set (merged_scores table ps)"
  then consider d where "d \<in> set table"
      "e = (case find (\<lambda>p. category p = category d) (rev ps) of None \<Rightarrow> d | Some p \<Rightarrow> p)"
    | "e \<in> set ps"
    by (auto simp add: merged_scores_def)
  then show ?thesis
  proof cases
    case 1
    then show ?thesis
      by (cases "find (\<lambda>p. category p = category d) (rev ps)") (auto dest: find_category)
  qed simp
qed

text \<open>The loop over \<open>parsedScores\<close> computes the merge.\<close>

lemma merge_loop_refines:
  assumes "distinct (map category table)"
  shows "foldl (merge_score (build_defaultMap table)) table ps = merged_scores table ps"
proof (induction ps rule: rev_induct)
  case Nil
  show ?case by (simp add: merged_scores_Nil)
next
  case (snoc p ps)
  let ?g = "\<lambda>d. case find (\<lambda>q. category q = category d) (rev ps) of None \<Rightarrow> d | Some q \<Rightarrow> q"
  let ?g' = "\<lambda>d. case find (\<lambda>q. category q = category d) (rev (ps @ [p])) of
                    None \<Rightarrow> d | Some q \<Rightarrow> q"
  let ?F = "filter (\<lambda>q. category q \<notin> set (map category table)) ps"
  have g': "?g' d = (if category p = category d then p else ?g d)" for d by simp
  have M: "merged_scores table ps = map ?g table @ ?F" by (simp add: merged_scores_def)
  have step: "foldl (merge_score (build_defaultMap table)) table (ps @ [p])
      = merge_score (build_defaultMap table) (merged_scores table ps) p"
    using snoc.IH by simp
  show ?case
  proof (cases "build_defaultMap table (category p)")
    case None
    then have notin: "category p \<notin> set (map category table)"
      using build_defaultMap_complete[of "category p" table] by blast
    then have "?g' d = ?g d" if "d \<in> set table" for d
      using that unfolding g' by auto
    then have "map ?g' table = map ?g table" by (intro map_cong) simp_all
    then have "merged_scores table (ps @ [p]) = merged_scores table ps @ [p]"
      unfolding merged_scores_def using notin by simp
    with None show ?thesis unfolding step by (simp add: merge_score_def)
  next
    case (Some idx)
    from build_defaultMap_sound[OF this] have idx: "idx < length table"
      "category (table ! idx) = category p" by simp_all
    have p: "\<lparr>category = category p, score = score p\<rparr> = p" by simp
    have "map ?g' table = (map ?g table)[idx := p]"
    proof (rule nth_equalityI)
      show "length (map ?g' table) = length ((map ?g table)[idx := p])" by simp
    next
      fix j assume "j < length (map ?g' table)"
      then have j: "j < length table" by simp
      have "category p = category (table ! j) \<longleftrightarrow> j = idx"
        using assms idx j
        by (metis distinct_conv_nth length_map nth_map)
      then show "map ?g' table ! j = (map ?g table)[idx := p] ! j"
        using j idx by (simp add: g' nth_list_update del: rev_append)
    qed
    moreover have "category p \<in> set (map category table)"
      using idx by (metis length_map nth_map nth_mem)
    ultimately have "merged_scores table (ps @ [p]) = (map ?g table)[idx := p] @ ?F"
      unfolding merged_scores_def by simp
    also have "\<dots> = (merged_scores table ps)[idx := p]"
      unfolding M using idx by (simp add: list_update_append1)
    finally show ?thesis unfolding step using Some by (simp add: merge_score_def p)
  qed
qed

lemma distinct_defaultScores: "distinct (map category defaultScores)"
  by (simp add: defaultScores_def)

lemma scores_extract_summary [simp]: "scores (extract_summary s r) = scores r"
  by (simp add: extract_summary_def split: option.splits)

lemma scores_extract_feedback [simp]: "scores (extract_feedback s r) = scores r"
  by (simp add: extract_feedback_def split: option.splits)

lemma scores_extract_suggestions [simp]: "scores (extract_suggestions s r) = scores r"
  by (simp add: extract_suggestions_def split: option.splits)

lemma Parser_texts_scores:
  "scores (Parser_texts s d) = merged_scores defaultScores (rating_entries s)"
proof (cases "str_match s ratingRegex")
  case None
  then show ?thesis
    by (simp add: Parser_texts_def Let_def extract_scores_def rating_entries_def
        initial_result_def merged_scores_Nil)
next
  case (Some ratingMatch)
  then show ?thesis
    by (simp add: Parser_texts_def Let_def extract_scores_def rating_entries_def
        initial_result_def merge_loop_refines[OF distinct_defaultScores])
qed

text \<open>The number of a line of the RATING block is read from a non-empty string of digits.\<close>

lemma score_line_digits:
  assumes "str_match line scoreLineRegex = Some m"
  shows "grp m 2 \<noteq> [] \<and> list_all is_digit (grp m 2)"
proof -
  let ?rs = "[Opt (Chr (CHR ''-'')), Star white, Group 1 (Plus (NCls [CChar (CHR '':'')])),
              Chr (CHR '':''), Star white]"
  have src: "source scoreLineRegex = seq (?rs @ [Group 2 (Plus (Cls [CDigit]))])"
    by (simp add: scoreLineRegex_def)
  from assms obtain rm where rm: "search_from flags_i (source scoreLineRegex) 2 line 0 = Some rm"
    and m: "m = groups rm"
    by (auto simp add: str_match_def exec_def scoreLineRegex_def)
  from search_from_head[OF rm] obtain y ys where
    h: "ms flags_i line (source scoreLineRegex) (drop (index rm) line, replicate (Suc 2) None) = y # ys"
    and g: "groups rm = (snd y)[0 := Some (take (length line - length (fst y) - index rm)
                                            (drop (index rm) line))]"
    by blast
  let ?x = "(drop (index rm) line, replicate (Suc 2) (None :: string option))"
  have "y \<in> set (ms flags_i line (source scoreLineRegex) ?x)" using h by simp
  then have "\<exists>z \<in> set (ms flags_i line (seq ?rs) ?x).
      y \<in> set (ms flags_i line (seq [Group 2 (Plus (Cls [CDigit]))]) z)"
    by (simp only: src in_ms_seq_append)
  then obtain z where z: "z \<in> set (ms flags_i line (seq ?rs) ?x)"
    and "y \<in> set (ms flags_i line (seq [Group 2 (Plus (Cls [CDigit]))]) z)"
    by blast
  then have y: "y \<in> set (ms flags_i line (Group 2 (Plus (Cls [CDigit]))) z)"
    by (simp only: seq.simps)
  from ms_captures[OF z] have lz: "length (snd z) = 3" by simp
  from y obtain w where w: "w \<noteq> []" "list_all is_digit w" "snd y = (snd z)[2 := Some w]"
    unfolding in_ms_Group_consumes[OF consumes_Plus[OF one_char_digit]] by blast
  have "grp m 2 = w" unfolding m g w(3) using lz by (simp add: grp_def)
  with w show ?thesis by simp
qed

lemma digits_value_nonneg:
  assumes "list_all is_digit t"
  shows "0 \<le> digits_value t"
proof -
  have "list_all is_digit t \<Longrightarrow> 0 \<le> acc \<Longrightarrow>
      0 \<le> foldl (\<lambda>acc c. 10 * acc + (int (of_char c) - 48)) acc t" for acc
  proof (induction t arbitrary: acc)
    case Nil
    then show ?case by simp
  next
    case (Cons c t)
    from Cons.prems have "48 \<le> (of_char c :: nat)" by (simp add: is_digit_def)
    then have "0 \<le> 10 * acc + (int (of_char c) - 48)" using Cons.prems(2) by simp
    with Cons show ?case by simp
  qed
  from this[OF assms, of 0] show ?thesis by (simp add: digits_value_def)
qed

lemma to_double_nonneg: "0 \<le> n \<Longrightarrow> nonneg_number (to_double n)"
  by (auto simp add: to_double_def Let_def pos_imp_zdiv_nonneg_iff)

lemma parse_score_lines_digits:
  "p \<in> set (parse_score_lines lines) \<Longrightarrow>
     \<exists>t. t \<noteq> [] \<and> list_all is_digit t \<and> score p = Number_of_digits t"
proof -
  have "(\<forall>p \<in> set acc. \<exists>t. t \<noteq> [] \<and> list_all is_digit t \<and> score p = Number_of_digits t) \<Longrightarrow>
        \<forall>p \<in> set (foldl (\<lambda>parsedScores line. parse_score_line line parsedScores) acc lines).
            \<exists>t. t \<noteq> [] \<and> list_all is_digit t \<and> score p = Number_of_digits t" for acc
  proof (induction lines arbitrary: acc)
    case Nil
    then show ?case by simp
  next
    case (Cons line lines)
    have "\<forall>p \<in> set (parse_score_line line acc).
            \<exists>t. t \<noteq> [] \<and> list_all is_digit t \<and> score p = Number_of_digits t"
    proof (cases "str_match line scoreLineRegex")
      case None
      with Cons.prems show ?thesis by (simp add: parse_score_line_def)
    next
      case (Some m)
      from score_line_digits[OF this] Cons.prems Some show ?thesis
        by (auto simp add: parse_score_line_def Let_def)
    qed
    from Cons.IH[OF this] show ?case by simp
  qed
  from this[of "[]"] show "p \<in> set (parse_score_lines lines) \<Longrightarrow>
     \<exists>t. t \<noteq> [] \<and> list_all is_digit t \<and> score p = Number_of_digits t"
    by (simp add: parse_score_lines_def)
qed

lemma rating_entries_digits:
  "p \<in> set (rating_entries s) \<Longrightarrow>
     \<exists>t. t \<noteq> [] \<and> list_all is_digit t \<and> score p = Number_of_digits t"
  by (cases "str_match s ratingRegex") (auto simp add: rating_entries_def dest: parse_score_lines_digits)

lemma scores_nonneg:
  assumes "e \<in> set (merged_scores defaultScores (rating_entries s))"
  shows "nonneg_number (score e)"
proof -
  from merged_scores_members[OF assms] show ?thesis
  proof
    assume "e \<in> set defaultScores"
    then show ?thesis by (auto simp add: defaultScores_def)
  next
    assume "e \<in> set (rating_entries s)"
    from rating_entries_digits[OF this] obtain t where "list_all is_digit t"
      "score e = Number_of_digits t" by blast
    then show ?thesis
      by (simp add: Number_of_digits_def to_double_nonneg digits_value_nonneg)
  qed
qed


lemma rating_entries_Nil: "rating_entries [] = []"
proof -
  have "\<not> sublist ''##'' []" by simp
  from no_marker_no_section[OF this, of "''RATING''"] show ?thesis
    by (simp add: rating_entries_def ratingRegex_def)
qed

text \<open>Above \<open>2^53\<close> the number read is the nearest double, not the numeral.\<close>

lemma Number_of_digits_rounds:
  "Number_of_digits ''100'' = Num 100"
  "Number_of_digits ''9007199254740993'' = Num 9007199254740992"
  by code_simp+

text \<open>
  Claim C1 says that \<open>scores\<close> always holds the eight canonical categories, each with a
  score of at most 100. For two empty texts the result is the default table, which has
  no entry for Persuasion (nor for Objection Handling or Closing Ability), and a score
  of 500 in the RATING block is stored as it is.
\<close>

theorem scores_canonical_counterexample:
  "Name ''Persuasion'' \<notin> category ` set (scores (Parser_texts [] [])) \<and>
   \<lparr>category = Name ''Empathy'', score = Num 500\<rparr>
     \<in> set (scores (Parser_texts ''## RATING\<newline>- Empathy: 500'' []))"
  by code_simp

text \<open>
  Claim C1, amended. For every pair of texts, \<open>scores\<close> is the default table merged with
  the entries of the RATING block of the summary text: the six entries of the table in
  its order (Empathy, Clarity, Flexibility, Assertiveness, Active Listening, Conflict
  Management), each replaced by the last entry of the block with its category when
  there is one, and after them the entries of the block with any other category, in
  the order of the block. So \<open>scores\<close> is not empty, its first six entries carry the
  categories of the table, and every entry is one of the table or one of the block.
  The score of an entry of the block is the number read from a non-empty string of
  digits, the double nearest to it; every score is a non-negative integer or
  \<open>Infinity\<close>, with no upper bound. Whenever the parser returns for an input, the
  \<open>scores\<close> it returns are those for some pair of texts.
\<close>

theorem scores_keep_default_categories:
  "scores (Parser_texts s d) = merged_scores defaultScores (rating_entries s)
   \<and> scores (Parser_texts s d) \<noteq> []
   \<and> map category (take 6 (scores (Parser_texts s d))) = default_categories
   \<and> (e \<in> set (scores (Parser_texts s d)) \<longrightarrow>
        (e \<in> set defaultScores \<or> e \<in> set (rating_entries s)) \<and> nonneg_number (score e))
   \<and> (p \<in> set (rating_entries s) \<longrightarrow>
        (\<exists>t. t \<noteq> [] \<and> list_all is_digit t \<and> score p = Number_of_digits t))
   \<and> (Parser JSON_parse rawText = Inr r \<longrightarrow>
        (\<exists>s' d'. scores r = scores (Parser_texts s' d')))"
proof -
  let ?M = "merged_scores defaultScores (rating_entries s)"
  have len: "length defaultScores = 6" by (simp add: defaultScores_def)
  have 1: "scores (Parser_texts s d) = ?M" by (rule Parser_texts_scores)
  have 2: "?M \<noteq> []" using merged_scores_length[of defaultScores "rating_entries s"] len by auto
  have 3: "map category (take 6 ?M) = default_categories"
    using merged_scores_categories[of defaultScores "rating_entries s"]
    unfolding len by (simp add: defaultScores_def default_categories_def)
  have 4: "e \<in> set ?M \<longrightarrow>
        (e \<in> set defaultScores \<or> e \<in> set (rating_entries s)) \<and> nonneg_number (score e)"
    using merged_scores_members[of e defaultScores "rating_entries s"] scores_nonneg[of e s]
    by blast
  have 5: "p \<in> set (rating_entries s) \<longrightarrow>
        (\<exists>t. t \<noteq> [] \<and> list_all is_digit t \<and> score p = Number_of_digits t)"
    using rating_entries_digits[of p s] by blast
  have 6: "\<exists>s' d'. scores r = scores (Parser_texts s' d')"
    if "Parser JSON_parse rawText = Inr r"
  proof -
    have "scores (Parser_texts [] []) = defaultScores"
      by (simp add: Parser_texts_scores rating_entries_Nil merged_scores_Nil)
    then have "scores (initial_result defaultScores) = scores (Parser_texts [] [])"
      by (simp add: initial_result_def)
    moreover have "r = initial_result defaultScores \<or> (\<exists>s' d'. r = Parser_texts s' d')"
      using that
      by (auto simp add: Parser_def Parser_body_def Let_def
          split: option.splits if_splits jsval.splits)
    ultimately show ?thesis by metis
  qed
  show ?thesis unfolding 1 using 2 3 4 5 6 by blast
qed

text \<open>
  A RATING block that names Empathy twice and Persuasion once: the last number for
  Empathy replaces the placeholder, the entry for Persuasion follows the table. And the
  report of the examples.
\<close>

theorem scores_keep_default_categories_witness:
  "rating_entries rating_text
     = [\<lparr>category = Name ''Empathy'', score = Num 70\<rparr>,
        \<lparr>category = Name ''Persuasion'', score = Num 60\<rparr>,
        \<lparr>category = Name ''Empathy'', score = Num 500\<rparr>] \<and>
   scores (Parser_texts rating_text [])
     = [\<lparr>category = Name ''Empathy'', score = Num 500\<rparr>,
        \<lparr>category = Name ''Clarity'', score = Num 90\<rparr>,
        \<lparr>category = Name ''Flexibility'', score = Num 80\<rparr>,
        \<lparr>category = Name ''Assertiveness'', score = Num 75\<rparr>,
        \<lparr>category = Name ''Active Listening'', score = Num 88\<rparr>,
        \<lparr>category = Name ''Conflict Management'', score = Num 99\<rparr>,
        \<lparr>category = Name ''Persuasion'', score = Num 60\<rparr>] \<and>
   \<lparr>category = Name ''Persuasion'', score = Num 60\<rparr> \<in> set (scores (Parser_texts rating_text [])) \<and>
   \<lparr>category = Name ''Persuasion'', score = Num 60\<rparr> \<in> set (rating_entries rating_text) \<and>
   nonneg_number (Num 60) \<and>
   (\<exists>t. t \<noteq> [] \<and> list_all is_digit t \<and> Num 60 = Number_of_digits t) \<and>
   Parser JSON_parse_sample sample_rawText = Inr sample_result \<and>
   (\<exists>s' d'. scores sample_result = scores (Parser_texts s' d'))"
proof -
  let ?e = "\<lparr>category = Name ''Persuasion'', score = Num 60\<rparr>"
  have re: "rating_entries rating_text
     = [\<lparr>category = Name ''Empathy'', score = Num 70\<rparr>, ?e,
        \<lparr>category = Name ''Empathy'', score = Num 500\<rparr>]"
    by code_simp
  have ms: "merged_scores defaultScores
        [\<lparr>category = Name ''Empathy'', score = Num 70\<rparr>, ?e,
         \<lparr>category = Name ''Empathy'', score = Num 500\<rparr>]
     = [\<lparr>category = Name ''Empathy'', score = Num 500\<rparr>,
        \<lparr>category = Name ''Clarity'', score = Num 90\<rparr>,
        \<lparr>category = Name ''Flexibility'', score = Num 80\<rparr>,
        \<lparr>category = Name ''Assertiveness'', score = Num 75\<rparr>,
        \<lparr>category = Name ''Active Listening'', score = Num 88\<rparr>,
        \<lparr>category = Name ''Conflict Management'', score = Num 99\<rparr>, ?e]"
    by code_simp
  have pr: "Parser JSON_parse_sample sample_rawText = Inr sample_result" by code_simp
  note t = scores_keep_default_categories[where s = rating_text and d = "[]" and e = ?e
      and p = ?e and JSON_parse = JSON_parse_sample and rawText = sample_rawText
      and r = sample_result]
  have sc: "scores (Parser_texts rating_text [])
     = [\<lparr>category = Name ''Empathy'', score = Num 500\<rparr>,
        \<lparr>category = Name ''Clarity'', score = Num 90\<rparr>,
        \<lparr>category = Name ''Flexibility'', score = Num 80\<rparr>,
        \<lparr>category = Name ''Assertiveness'', score = Num 75\<rparr>,
        \<lparr>category = Name ''Active Listening'', score = Num 88\<rparr>,
        \<lparr>category = Name ''Conflict Management'', score = Num 99\<rparr>, ?e]"
    using t unfolding re ms by blast
  have m1: "?e \<in> set (scores (Parser_texts rating_text []))" unfolding sc by simp
  have m2: "?e \<in> set (rating_entries rating_text)" unfolding re by simp
  have n: "nonneg_number (score ?e)" using t m1 by blast
  have dg: "\<exists>t. t \<noteq> [] \<and> list_all is_digit t \<and> score ?e = Number_of_digits t"
    using t m2 by blast
  have ex: "\<exists>s' d'. scores sample_result = scores (Parser_texts s' d')" using t pr by blast
  show ?thesis using re sc m1 m2 n dg pr ex by simp
qed

subsection \<open>Fallback of the text fields\<close>

text \<open>
  Claim C2 says that without any header all three of \<open>summary\<close>, \<open>feedback\<close> and
  \<open>suggestions\<close> fall back to the raw text. For the text \<open>hello\<close> no header is found,
  \<open>summary\<close> is the text, and \<open>feedback\<close> and \<open>suggestions\<close> stay \<open>null\<close>; for a text of
  one blank \<open>summary\<close> stays \<open>null\<close> as well.
\<close>

theorem all_fields_fall_back_counterexample:
  "str_match ''hello'' overviewRegex = None \<and> str_match ''hello'' feedbackRegex = None \<and>
   str_match ''hello'' suggestionsRegex = None \<and> str_match ''hello'' ratingRegex = None \<and>
   summary (Parser_texts ''hello'' []) = Some ''hello'' \<and>
   feedback (Parser_texts ''hello'' []) = None \<and>
   suggestions (Parser_texts ''hello'' []) = None \<and>
   summary (Parser_texts '' '' []) = None"
  by code_simp

text \<open>
  Claim C2, amended. When the summary text has a character that is not white space and
  none of the headers CONVERSATION OVERVIEW, USER PERFORMANCE ANALYSIS and IMPROVEMENT
  RECOMMENDATIONS is found, \<open>summary\<close> is the trimmed text before the first \<open>##\<close> or,
  when that is empty, the first 500 characters of the text; it is not empty.
  \<open>feedback\<close> and \<open>suggestions\<close> stay \<open>null\<close>.
\<close>

theorem summary_fallback_only:
  assumes "str_match s overviewRegex = None" and "str_match s feedbackRegex = None"
    and "str_match s suggestionsRegex = None" and "trim s \<noteq> []"
  shows "summary (Parser_texts s d)
           = Some (if trim (before_first_marker s) \<noteq> [] then trim (before_first_marker s)
                   else substring0 s 500)
         \<and> summary (Parser_texts s d) \<noteq> Some []
         \<and> feedback (Parser_texts s d) = None
         \<and> suggestions (Parser_texts s d) = None"
proof -
  have s: "s \<noteq> []" using assms(4) by (auto simp add: trim_def)
  let ?x = "if trim (before_first_marker s) \<noteq> [] then trim (before_first_marker s)
            else substring0 s 500"
  have x: "?x \<noteq> []" using s by (simp add: substring0_def)
  have 1: "extract_summary s (initial_result defaultScores)
             = (initial_result defaultScores)\<lparr>summary := Some ?x\<rparr>"
    using assms(1,4) by (simp add: extract_summary_def)
  have 2: "extract_feedback s ((initial_result defaultScores)\<lparr>summary := Some ?x\<rparr>)
             = (initial_result defaultScores)\<lparr>summary := Some ?x\<rparr>"
    using assms(2) x by (simp add: extract_feedback_def truthy_string_def)
  have 3: "extract_suggestions s ((initial_result defaultScores)\<lparr>summary := Some ?x\<rparr>)
             = (initial_result defaultScores)\<lparr>summary := Some ?x\<rparr>"
    using assms(3) by (simp add: extract_suggestions_def)
  have 4: "summary (extract_scores s r) = summary r \<and> feedback (extract_scores s r) = feedback r
      \<and> suggestions (extract_scores s r) = suggestions r" for r
    by (simp add: extract_scores_def Let_def split: option.splits)
  have "summary (Parser_texts s d) = Some ?x \<and> feedback (Parser_texts s d) = None
      \<and> suggestions (Parser_texts s d) = None"
    unfolding Parser_texts_def Let_def 1 2 3 by (simp add: 4 initial_result_def)
  then show ?thesis using x by simp
qed

text \<open>A text with a \<open>##\<close> that starts no header: \<open>summary\<close> is what stands before it.\<close>

theorem summary_fallback_only_witness:
  "str_match free_text overviewRegex = None \<and> str_match free_text feedbackRegex = None \<and>
   str_match free_text suggestionsRegex = None \<and> trim free_text \<noteq> [] \<and>
   summary (Parser_texts free_text []) = Some ''Great call overall.'' \<and>
   feedback (Parser_texts free_text []) = None \<and>
   suggestions (Parser_texts free_text []) = None"
proof -
  have a: "str_match free_text overviewRegex = None" by code_simp
  have b: "str_match free_text feedbackRegex = None" by code_simp
  have c: "str_match free_text suggestionsRegex = None" by code_simp
  have d: "trim free_text \<noteq> []" by code_simp
  have e: "trim (before_first_marker free_text) = ''Great call overall.''" by code_simp
  from summary_fallback_only[OF a b c d, of "[]"] a b c d show ?thesis by (simp add: e)
qed


subsection \<open>Order of the segment strategies\<close>

lemma seg_loop_yield:
  "seg_loop st d L \<sigma> = \<sigma>\<lparr>segs := segs \<sigma> @ yield_from st d L,
                            segmentCount := segmentCount \<sigma> + length (yield_from st d L),
                            usedRegex := (if yield_from st d L = [] then usedRegex \<sigma>
                                          else strategy_name st)\<rparr>"
proof (induction st d L \<sigma> rule: seg_loop.induct)
  case (1 st d L \<sigma>)
  show ?case
  proof (cases "exec (strategy_regex st) d L")
    case None
    then have "strategy_matches st d L = []" by (simp add: strategy_matches.simps[of st d L])
    then have "yield_from st d L = []" by (auto simp add: yield_from_def)
    moreover have "seg_loop st d L \<sigma> = \<sigma>" using None by (subst seg_loop.simps) simp
    ultimately show ?thesis by simp
  next
    case (Some m)
    let ?c = "trim (grp (groups m) 2)"
    have sm: "strategy_matches st d L = m # strategy_matches st d (end_index m)"
      using Some by (simp add: strategy_matches.simps[of st d L])
    show ?thesis
    proof (cases "st = PlainText \<and> length ?c < 10")
      case True
      have y: "yield_from st d L = yield_from st d (end_index m)"
        using True sm by (auto simp add: yield_from_def)
      have unf: "seg_loop st d L \<sigma> = seg_loop st d (end_index m) \<sigma>"
        using Some True by (subst seg_loop.simps) (simp add: Let_def)
      show ?thesis
        unfolding unf y using "1.IH"(1)[OF Some refl refl True] .
    next
      case False
      have y: "yield_from st d L = segment_of m # yield_from st d (end_index m)"
        using False sm by (auto simp add: yield_from_def)
      have unf: "seg_loop st d L \<sigma> = seg_loop st d (end_index m)
                    (\<sigma>\<lparr>segs := segs \<sigma> @ [segment_of m], segmentCount := segmentCount \<sigma> + 1,
                       usedRegex := strategy_name st\<rparr>)"
        using Some False by (subst seg_loop.simps) (auto simp add: Let_def segment_of_def)
      show ?thesis
        unfolding unf y using "1.IH"(2)[OF Some refl refl False]
        by (simp add: segment_of_def)
    qed
  qed
qed

lemma run_strategy_yield:
  "run_strategy st d \<sigma> = \<sigma>\<lparr>segs := segs \<sigma> @ strategy_yield st d,
       segmentCount := segmentCount \<sigma> + length (strategy_yield st d),
       usedRegex := (if strategy_yield st d = [] then usedRegex \<sigma> else strategy_name st)\<rparr>"
  by (simp add: run_strategy_def seg_loop_yield yield_from_def strategy_yield_def)

text \<open>
  Claim C6 says that strategy 1 takes open and close tags with identical titles. Its
  pattern carries the flag \<open>i\<close>, which also governs the back reference: the closing
  title \<open>A\<close> is accepted for the opening title \<open>a\<close>, although the text has no closing tag
  with the title \<open>a\<close>.
\<close>

theorem identical_titles_counterexample:
  "strategy_yield Regex1 ''<segment:a>x</segment:A>'' = [\<lparr>title = ''a'', content = ''x''\<rparr>] \<and>
   segments (Parser_texts [] ''<segment:a>x</segment:A>'') = [\<lparr>title = ''a'', content = ''x''\<rparr>] \<and>
   usedRegex (extract_segments ''<segment:a>x</segment:A>'') = ''regex1'' \<and>
   \<not> str_includes ''<segment:a>x</segment:A>'' ''</segment:a>''"
  by code_simp

text \<open>
  Claim C6, amended. The segments of the result are what the first of the strategies
  1, 2, 3, 4 yields that yields at least one segment, and \<open>usedRegex\<close> names that
  strategy. A strategy yields a segment for each match of its pattern (title: group 1
  trimmed; content: group 2 trimmed, speaker labels in bold), where the plain-text
  strategy discards the matches whose trimmed content has fewer than 10 characters.
  Every match of a strategy is an occurrence of its form, with the title text and the
  content text as its groups, and a text that holds an occurrence of the form of a
  strategy has a match of that strategy. The forms are: (1) \<open><segment:\<close>, white space, a
  title without \<open>>\<close>, \<open>>\<close>, content, \<open></segment:\<close>, white space, the title again up to
  the case of its letters, \<open>>\<close>; (2) the same with any non-empty text without \<open>>\<close> in
  place of the second title; (3) the same with the closing tag \<open></segment>\<close>; (4)
  \<open>Segment:\<close>, white space, a title without line feed, a line feed, content, followed
  by \<open>Segment:\<close> or the end of the text. The fixed words are matched up to the case of
  their letters.
\<close>

theorem segment_strategy_order:
  "segments (Parser_texts s d) =
     (if strategy_yield Regex1 d \<noteq> [] then strategy_yield Regex1 d
      else if strategy_yield Regex2 d \<noteq> [] then strategy_yield Regex2 d
      else if strategy_yield Regex3 d \<noteq> [] then strategy_yield Regex3 d
      else strategy_yield PlainText d)
   \<and> usedRegex (extract_segments d) =
     (if strategy_yield Regex1 d \<noteq> [] then ''regex1''
      else if strategy_yield Regex2 d \<noteq> [] then ''regex2''
      else if strategy_yield Regex3 d \<noteq> [] then ''regex3''
      else if strategy_yield PlainText d \<noteq> [] then ''plainText''
      else [])
   \<and> strategy_yield st d =
       map (\<lambda>m. \<lparr>title = trim (grp (groups m) 1),
                  content = bold_speakers (trim (grp (groups m) 2))\<rparr>)
         (filter (\<lambda>m. st \<noteq> PlainText \<or> 10 \<le> length (trim (grp (groups m) 2)))
            (strategy_matches st d 0))
   \<and> (m \<in> set (strategy_matches st d 0) \<longrightarrow>
        (\<exists>ot w ct v b.
            index m \<le> end_index m \<and> end_index m \<le> length d
          \<and> take (end_index m - index m) (drop (index m) d)
              = occurrence st ot w (grp (groups m) 1) (grp (groups m) 2) ct v b
          \<and> well_formed st ot w (grp (groups m) 1) ct v b (drop (end_index m) d)))
   \<and> (d = pre @ occurrence st ot w g1 g2 ct v b @ post \<and> well_formed st ot w g1 ct v b post
        \<longrightarrow> strategy_matches st d 0 \<noteq> [])"
proof -
  have seg: "segments (Parser_texts s d) = segs (extract_segments d)"
    by (simp add: Parser_texts_def Let_def)
  have 1: "segs (extract_segments d) =
     (if strategy_yield Regex1 d \<noteq> [] then strategy_yield Regex1 d
      else if strategy_yield Regex2 d \<noteq> [] then strategy_yield Regex2 d
      else if strategy_yield Regex3 d \<noteq> [] then strategy_yield Regex3 d
      else strategy_yield PlainText d)"
    by (simp add: extract_segments_def Let_def run_strategy_yield)
  have 2: "usedRegex (extract_segments d) =
     (if strategy_yield Regex1 d \<noteq> [] then ''regex1''
      else if strategy_yield Regex2 d \<noteq> [] then ''regex2''
      else if strategy_yield Regex3 d \<noteq> [] then ''regex3''
      else if strategy_yield PlainText d \<noteq> [] then ''plainText''
      else [])"
    by (simp add: extract_segments_def Let_def run_strategy_yield)
  have 3: "strategy_yield st d =
       map (\<lambda>m. \<lparr>title = trim (grp (groups m) 1),
                  content = bold_speakers (trim (grp (groups m) 2))\<rparr>)
         (filter (\<lambda>m. st \<noteq> PlainText \<or> 10 \<le> length (trim (grp (groups m) 2)))
            (strategy_matches st d 0))"
    by (cases "st = PlainText") (simp_all add: strategy_yield_def segment_of_def[abs_def])
  have 4: "m \<in> set (strategy_matches st d 0) \<longrightarrow>
        (\<exists>ot w ct v b.
            index m \<le> end_index m \<and> end_index m \<le> length d
          \<and> take (end_index m - index m) (drop (index m) d)
              = occurrence st ot w (grp (groups m) 1) (grp (groups m) 2) ct v b
          \<and> well_formed st ot w (grp (groups m) 1) ct v b (drop (end_index m) d))"
    using strategy_match_sound[of m st d 0] by blast
  have 5: "d = pre @ occurrence st ot w g1 g2 ct v b @ post \<and> well_formed st ot w g1 ct v b post
        \<longrightarrow> strategy_matches st d 0 \<noteq> []"
    using strategy_match_complete[of d pre st ot w g1 g2 ct v b post] by blast
  show ?thesis unfolding seg using 1 2 3 4 5 by blast
qed

text \<open>
  Four detail texts. In the first a close tag with another title stands before the one
  with the same title: strategy 1 takes the whole as one segment, and strategy 2, which
  would stop at the first close tag, is not applied. In the second no close tag has
  the title of its open tag: strategy 1 yields nothing and strategy 2 yields the two
  segments. In the third the close tags are untitled: only strategy 3 yields. The
  fourth is in the plain-text form: the three tag strategies yield nothing, the fourth
  finds two matches and discards the one with the content \<open>short\<close>.
\<close>

theorem segment_strategy_order_witness:
  "strategy_yield Regex1 nested_detail = [\<lparr>title = ''a'', content = ''x</segment:b>y''\<rparr>] \<and>
   strategy_yield Regex2 nested_detail = [\<lparr>title = ''a'', content = ''x''\<rparr>] \<and>
   segments (Parser_texts [] nested_detail) = [\<lparr>title = ''a'', content = ''x</segment:b>y''\<rparr>] \<and>
   usedRegex (extract_segments nested_detail) = ''regex1'' \<and>
   strategy_yield Regex1 other_titles_detail = [] \<and>
   segments (Parser_texts [] other_titles_detail)
     = [\<lparr>title = ''a'', content = ''x''\<rparr>, \<lparr>title = ''c'', content = ''**User:** y''\<rparr>] \<and>
   usedRegex (extract_segments other_titles_detail) = ''regex2'' \<and>
   \<lparr>index = 24, end_index = 54,
     groups = [Some ''<segment:c>user: y</segment:d>'', Some ''c'', Some ''user: y'']\<rparr>
     \<in> set (strategy_matches Regex2 other_titles_detail 0) \<and>
   (\<exists>ot w ct v b.
      ''<segment:c>user: y</segment:d>'' = occurrence Regex2 ot w ''c'' ''user: y'' ct v b \<and>
      well_formed Regex2 ot w ''c'' ct v b []) \<and>
   strategy_yield Regex1 untitled_detail = [] \<and> strategy_yield Regex2 untitled_detail = [] \<and>
   segments (Parser_texts [] untitled_detail)
     = [\<lparr>title = ''a'', content = ''x''\<rparr>, \<lparr>title = ''b'', content = ''y''\<rparr>] \<and>
   usedRegex (extract_segments untitled_detail) = ''regex3'' \<and>
   untitled_detail
     = ''<segment:a>x</segment>'' @ occurrence Regex3 ''<SEGMENT:'' '' '' ''b'' ''y'' ''</Segment>'' [] [] @ [] \<and>
   well_formed Regex3 ''<SEGMENT:'' '' '' ''b'' ''</Segment>'' [] [] [] \<and>
   strategy_matches Regex3 untitled_detail 0 \<noteq> [] \<and>
   strategy_yield Regex1 plain_detail = [] \<and> strategy_yield Regex2 plain_detail = [] \<and>
   strategy_yield Regex3 plain_detail = [] \<and>
   map (\<lambda>m. trim (grp (groups m) 2)) (strategy_matches PlainText plain_detail 0)
     = [''user: Hi there, how are you'', ''short''] \<and>
   strategy_yield PlainText plain_detail
     = map (\<lambda>m. \<lparr>title = trim (grp (groups m) 1),
                  content = bold_speakers (trim (grp (groups m) 2))\<rparr>)
         (filter (\<lambda>m. 10 \<le> length (trim (grp (groups m) 2)))
            (strategy_matches PlainText plain_detail 0)) \<and>
   segments (Parser_texts [] plain_detail)
     = [\<lparr>title = ''Opening'', content = ''**User:** Hi there, how are you''\<rparr>] \<and>
   usedRegex (extract_segments plain_detail) = ''plainText''"
proof -
  let ?m = "\<lparr>index = 24, end_index = 54,
     groups = [Some ''<segment:c>user: y</segment:d>'', Some ''c'', Some ''user: y'']\<rparr>"
  have n1: "strategy_yield Regex1 nested_detail = [\<lparr>title = ''a'', content = ''x</segment:b>y''\<rparr>]"
    by code_simp
  have n2: "strategy_yield Regex2 nested_detail = [\<lparr>title = ''a'', content = ''x''\<rparr>]"
    by code_simp
  have o1: "strategy_yield Regex1 other_titles_detail = []" by code_simp
  have o2: "strategy_yield Regex2 other_titles_detail
      = [\<lparr>title = ''a'', content = ''x''\<rparr>, \<lparr>title = ''c'', content = ''**User:** y''\<rparr>]"
    by code_simp
  have om: "?m \<in> set (strategy_matches Regex2 other_titles_detail 0)" by code_simp
  have od: "take (end_index ?m - index ?m) (drop (index ?m) other_titles_detail)
      = ''<segment:c>user: y</segment:d>''" "drop (end_index ?m) other_titles_detail = []"
    "grp (groups ?m) 1 = ''c''" "grp (groups ?m) 2 = ''user: y''"
    by (simp_all add: other_titles_detail_def grp_def)
  have u1: "strategy_yield Regex1 untitled_detail = []" by code_simp
  have u2: "strategy_yield Regex2 untitled_detail = []" by code_simp
  have u3: "strategy_yield Regex3 untitled_detail
      = [\<lparr>title = ''a'', content = ''x''\<rparr>, \<lparr>title = ''b'', content = ''y''\<rparr>]"
    by code_simp
  have ud: "untitled_detail
     = ''<segment:a>x</segment>'' @ occurrence Regex3 ''<SEGMENT:'' '' '' ''b'' ''y'' ''</Segment>'' [] [] @ []"
    by (simp add: untitled_detail_def occurrence_def)
  have uw: "well_formed Regex3 ''<SEGMENT:'' '' '' ''b'' ''</Segment>'' [] [] []" by code_simp
  have p1: "strategy_yield Regex1 plain_detail = []" by code_simp
  have p2: "strategy_yield Regex2 plain_detail = []" by code_simp
  have p3: "strategy_yield Regex3 plain_detail = []" by code_simp
  have p4: "strategy_yield PlainText plain_detail
             = [\<lparr>title = ''Opening'', content = ''**User:** Hi there, how are you''\<rparr>]"
    by code_simp
  have p5: "map (\<lambda>m. trim (grp (groups m) 2)) (strategy_matches PlainText plain_detail 0)
     = [''user: Hi there, how are you'', ''short'']" by code_simp
  note t = segment_strategy_order[where s = "[]" and st = Regex2 and m = ?m]
  have a: "segments (Parser_texts [] nested_detail) = [\<lparr>title = ''a'', content = ''x</segment:b>y''\<rparr>]"
    "usedRegex (extract_segments nested_detail) = ''regex1''"
    using t[where d = nested_detail] by (simp_all add: n1)
  have b: "segments (Parser_texts [] other_titles_detail)
     = [\<lparr>title = ''a'', content = ''x''\<rparr>, \<lparr>title = ''c'', content = ''**User:** y''\<rparr>]"
    "usedRegex (extract_segments other_titles_detail) = ''regex2''"
    using t[where d = other_titles_detail] by (simp_all add: o1 o2)
  have "\<exists>ot w ct v b.
            index ?m \<le> end_index ?m \<and> end_index ?m \<le> length other_titles_detail
          \<and> take (end_index ?m - index ?m) (drop (index ?m) other_titles_detail)
              = occurrence Regex2 ot w (grp (groups ?m) 1) (grp (groups ?m) 2) ct v b
          \<and> well_formed Regex2 ot w (grp (groups ?m) 1) ct v b
               (drop (end_index ?m) other_titles_detail)"
    using t[where d = other_titles_detail] om by blast
  then have c: "\<exists>ot w ct v b.
      ''<segment:c>user: y</segment:d>'' = occurrence Regex2 ot w ''c'' ''user: y'' ct v b \<and>
      well_formed Regex2 ot w ''c'' ct v b []"
    unfolding od by blast
  have d: "segments (Parser_texts [] untitled_detail)
     = [\<lparr>title = ''a'', content = ''x''\<rparr>, \<lparr>title = ''b'', content = ''y''\<rparr>]"
    "usedRegex (extract_segments untitled_detail) = ''regex3''"
    using t[where d = untitled_detail] by (simp_all add: u1 u2 u3)
  have e: "strategy_matches Regex3 untitled_detail 0 \<noteq> []"
    using segment_strategy_order[where d = untitled_detail and st = Regex3
      and pre = "''<segment:a>x</segment>''" and ot = "''<SEGMENT:''" and w = "'' ''"
      and ?g1.0 = "''b''" and ?g2.0 = "''y''" and ct = "''</Segment>''" and v = "[]" and b = "[]"
      and post = "[]"] ud uw
    by blast
  have f: "segments (Parser_texts [] plain_detail)
     = [\<lparr>title = ''Opening'', content = ''**User:** Hi there, how are you''\<rparr>]"
    "usedRegex (extract_segments plain_detail) = ''plainText''"
    using t[where d = plain_detail] by (simp_all add: p1 p2 p3 p4)
  have p6: "strategy_yield PlainText plain_detail
     = map (\<lambda>m. \<lparr>title = trim (grp (groups m) 1),
                  content = bold_speakers (trim (grp (groups m) 2))\<rparr>)
         (filter (\<lambda>m. 10 \<le> length (trim (grp (groups m) 2)))
            (strategy_matches PlainText plain_detail 0))"
    using segment_strategy_order[where d = plain_detail and st = PlainText] by simp
  show ?thesis
    using n1 n2 a o1 b om c u1 u2 d ud uw e p1 p2 p3 p5 p6 f by (intro conjI)
qed

subsection \<open>Alias normalization of the score extractor\<close>

text \<open>
  Claim C7 says that the extractor yields a mapping with the key \<open>Flexibility\<close>. The
  object it returns has no such key: its key for this category is \<open>flexibility\<close>.
\<close>

theorem alias_normalization_counterexample:
  "\<not> (\<exists>m. extractScoresFromSummary ''## RATING\<newline>- Open-Mindedness: 40'' = Some m \<and>
           map_of m ''Flexibility'' = Some (Num 40))"
proof -
  have "extractScoresFromSummary ''## RATING\<newline>- Open-Mindedness: 40'' = Some [(''flexibility'', Num 40)]"
    by code_simp
  then show ?thesis by simp
qed

text \<open>
  Claim C7, amended. The extractor applied to the text of the claim yields the object
  with the single key \<open>flexibility\<close> and the value 40; so it does when the category is
  written with an underscore, with a blank, or in upper case, since the category is
  lower-cased and stripped of white space, hyphens and underscores before it is matched.
\<close>

theorem alias_normalization:
  "extractScoresFromSummary ''## RATING\<newline>- Open-Mindedness: 40'' = Some [(''flexibility'', Num 40)] \<and>
   extractScoresFromSummary ''## RATING\<newline>* open_mindedness : 40'' = Some [(''flexibility'', Num 40)] \<and>
   extractScoresFromSummary ''## RATING\<newline>- OPEN MINDED: 40'' = Some [(''flexibility'', Num 40)]"
  by code_simp


subsection \<open>The parser is a function of its input\<close>


lemma foldl_store_merge_score:
  "ref < length h \<Longrightarrow>
     foldl (store_merge_score dm ref) h pss = h[ref := foldl (merge_score dm) (h ! ref) pss]"
proof (induction pss arbitrary: h)
  case Nil
  then show ?case by simp
next
  case (Cons ps pss)
  have "ref < length (store_merge_score dm ref h ps)"
    using Cons.prems by (simp add: store_merge_score_def)
  from Cons.IH[OF this] Cons.prems show ?case by (simp add: store_merge_score_def)
qed

lemma extract_scores_run_eq:
  assumes "ref < length h" and "scores r = h ! ref"
  shows "extract_scores_run s ref h = h[ref := scores (extract_scores s r)]"
  using assms
  by (simp add: extract_scores_run_def extract_scores_def Let_def foldl_store_merge_score
      split: option.splits)

lemma extract_summary_scores_upd:
  "extract_summary s (r\<lparr>scores := x\<rparr>) = (extract_summary s r)\<lparr>scores := x\<rparr>"
  by (simp add: extract_summary_def split: option.splits)

lemma extract_feedback_scores_upd:
  "extract_feedback s (r\<lparr>scores := x\<rparr>) = (extract_feedback s r)\<lparr>scores := x\<rparr>"
  by (simp add: extract_feedback_def split: option.splits)

lemma extract_suggestions_scores_upd:
  "extract_suggestions s (r\<lparr>scores := x\<rparr>) = (extract_suggestions s r)\<lparr>scores := x\<rparr>"
  by (simp add: extract_suggestions_def split: option.splits)

lemma extract_scores_as_update:
  "extract_scores s r = r\<lparr>scores := scores (extract_scores s r)\<rparr>"
  by (simp add: extract_scores_def Let_def split: option.splits)

lemma Parser_texts_run_eq:
  assumes "ref < length h" and "h ! ref = defaultScores"
  shows "Parser_texts_run s d ref h = (Parser_texts s d, h[ref := scores (Parser_texts s d)])"
proof -
  let ?r0 = "\<lparr>summary = None, feedback = None, suggestions = None, segments = [],
               scores = []\<rparr>"
  let ?p = "\<lambda>r. extract_suggestions s (extract_feedback s (extract_summary s r))"
  have i: "initial_result defaultScores = ?r0\<lparr>scores := defaultScores\<rparr>"
    by (simp add: initial_result_def)
  have p: "?p (initial_result defaultScores) = (?p ?r0)\<lparr>scores := defaultScores\<rparr>"
    unfolding i
    by (simp only: extract_summary_scores_upd extract_feedback_scores_upd
        extract_suggestions_scores_upd)
  have sc: "scores (?p (initial_result defaultScores)) = h ! ref"
    using assms(2) by (simp add: initial_result_def)
  have h': "extract_scores_run s ref h
              = h[ref := scores (extract_scores s (?p (initial_result defaultScores)))]"
    by (rule extract_scores_run_eq[OF assms(1) sc])
  have pt: "Parser_texts s d
      = (extract_scores s (?p (initial_result defaultScores)))\<lparr>segments := segs (extract_segments d)\<rparr>"
    by (simp add: Parser_texts_def Let_def)
  have es: "extract_scores s (?p (initial_result defaultScores))
      = (?p ?r0)\<lparr>scores := scores (extract_scores s (?p (initial_result defaultScores)))\<rparr>"
    by (subst extract_scores_as_update) (simp add: p)
  show ?thesis
    unfolding Parser_texts_run_def Let_def h' pt
    using assms(1) by (subst (3) es) simp
qed

lemma extract_scores_run_length [simp]: "length (extract_scores_run s ref h) = length h"
proof -
  have "length (foldl (store_merge_score dm ref) h pss) = length h" for dm pss
    by (induction pss arbitrary: h) (simp_all add: store_merge_score_def)
  then show ?thesis by (simp add: extract_scores_run_def Let_def split: option.splits)
qed

lemma extract_scores_run_other:
  "a \<noteq> ref \<Longrightarrow> extract_scores_run s ref h ! a = h ! a"
proof -
  have "foldl (store_merge_score dm ref) h pss ! a = h ! a" if "a \<noteq> ref" for dm pss
    using that by (induction pss arbitrary: h) (simp_all add: store_merge_score_def)
  then show "a \<noteq> ref \<Longrightarrow> extract_scores_run s ref h ! a = h ! a"
    by (simp add: extract_scores_run_def Let_def split: option.splits)
qed

lemma Parser_body_run_eq:
  assumes "ref < length h" and "h ! ref = defaultScores" and "defaultScores_ref \<noteq> ref"
    and "h ! defaultScores_ref = defaultScores"
  shows "fst (Parser_body_run st dt ref h) = Parser_body st dt
         \<and> length h \<le> length (snd (Parser_body_run st dt ref h))
         \<and> snd (Parser_body_run st dt ref h) ! defaultScores_ref = defaultScores"
  using assms
  by (auto simp add: Parser_body_run_def Parser_body_def Parser_texts_run_eq
      extract_scores_run_other
      split: jsval.splits option.splits)

lemma Parser_run_eq:
  assumes "module_loaded h"
  shows "fst (Parser_run JSON_parse rawText h) = Parser JSON_parse rawText
         \<and> module_loaded (snd (Parser_run JSON_parse rawText h))"
proof -
  let ?h = "h @ [defaultScores]"
  have h: "defaultScores_ref < length h" "h ! defaultScores_ref = defaultScores"
    using assms by (simp_all add: module_loaded_def)
  have a: "length h < length ?h" "?h ! length h = defaultScores" "defaultScores_ref \<noteq> length h"
    "?h ! defaultScores_ref = defaultScores"
    using h by (simp_all add: nth_append)
  have na: "new_array h defaultScores = (length h, ?h)"
    by (simp add: new_array_def)
  have ir: "initial_result defaultScores
      = \<lparr>summary = None, feedback = None, suggestions = None, segments = [], scores = defaultScores\<rparr>"
    by (simp add: initial_result_def)
  show ?thesis
  proof (cases "JSON_parse rawText")
    case None
    then show ?thesis using h a
      by (simp add: Parser_run_def Parser_def na ir module_loaded_def)
  next
    case (Some parsed)
    show ?thesis
    proof (cases "parsed = JNull \<or> parsed = JUndefined")
      case True
      then show ?thesis using Some h a
        by (auto simp add: Parser_run_def Parser_def na ir module_loaded_def)
    next
      case False
      let ?st = "js_or (js_or (js_get parsed ''summaryAnalysis'') (js_get parsed ''summary'')) (JStr [])"
      let ?dt = "js_or (js_or (js_get parsed ''detailedFeedback'') (js_get parsed ''detail'')) (JStr [])"
      from Parser_body_run_eq[OF a, of ?st ?dt] h
      show ?thesis using Some False
        by (simp add: Parser_run_def Parser_def na Let_def module_loaded_def)
    qed
  qed
qed

text \<open>
  Claim C9. In a store in which the module is loaded, a run of the parser returns the
  value of the function \<open>Parser\<close> of its input and leaves the module loaded, with its
  array \<open>defaultScores\<close> as it was; a second run on the same input, in the store the
  first run left, returns the same result.
\<close>

theorem parser_deterministic:
  assumes "module_loaded h"
  shows "fst (Parser_run JSON_parse rawText (snd (Parser_run JSON_parse rawText h)))
           = fst (Parser_run JSON_parse rawText h)
         \<and> fst (Parser_run JSON_parse rawText h) = Parser JSON_parse rawText
         \<and> module_loaded (snd (Parser_run JSON_parse rawText h))"
proof -
  from Parser_run_eq[OF assms, of JSON_parse rawText]
  have 1: "fst (Parser_run JSON_parse rawText h) = Parser JSON_parse rawText"
    and 2: "module_loaded (snd (Parser_run JSON_parse rawText h))" by auto
  from Parser_run_eq[OF 2, of JSON_parse rawText] 1 2 show ?thesis by simp
qed

text \<open>Two runs on the report of the examples, starting from the freshly loaded module.\<close>

theorem parser_deterministic_witness:
  "module_loaded [defaultScores] \<and>
   fst (Parser_run JSON_parse_sample sample_rawText [defaultScores]) = Inr sample_result \<and>
   fst (Parser_run JSON_parse_sample sample_rawText
          (snd (Parser_run JSON_parse_sample sample_rawText [defaultScores]))) = Inr sample_result"
proof -
  have m: "module_loaded [defaultScores]" by (simp add: module_loaded_def defaultScores_ref_def)
  have e: "Parser JSON_parse_sample sample_rawText = Inr sample_result" by code_simp
  from parser_deterministic[OF m, of JSON_parse_sample sample_rawText] m e show ?thesis by simp
qed


subsection \<open>Input that is not JSON\<close>

text \<open>
  Claim C10. When \<open>JSON.parse\<close> throws on the input, the parser returns the initial
  result: the three texts \<open>null\<close>, no segment, and scores equal to the default table,
  held in a new array of the store. The input is one JSON text: for the JSON text of an
  object with the strings \<open>summaryAnalysis\<close> and \<open>detailedFeedback\<close> the parser returns
  what it computes from these two texts.
\<close>

theorem invalid_json_default_result:
  "(JSON_parse rawText = None \<longrightarrow>
      Parser JSON_parse rawText
        = Inr \<lparr>summary = None, feedback = None, suggestions = None, segments = [],
               scores = defaultScores\<rparr>
      \<and> (module_loaded h \<longrightarrow>
           Parser_run JSON_parse rawText h
             = (Inr \<lparr>summary = None, feedback = None, suggestions = None, segments = [],
                     scores = defaultScores\<rparr>, h @ [defaultScores])))
   \<and> (JSON_parse rawText = Some (JObj [(''summaryAnalysis'', JStr s), (''detailedFeedback'', JStr d)]) \<longrightarrow>
        Parser JSON_parse rawText = Inr (Parser_texts s d))"
  by (auto simp add: Parser_def Parser_run_def initial_result_def new_array_def module_loaded_def
      Parser_body_def js_or_def Let_def)

text \<open>An input that is not JSON, and the report of the examples.\<close>

theorem invalid_json_default_result_witness:
  "JSON_parse_sample ''not json'' = None \<and>
   Parser JSON_parse_sample ''not json''
     = Inr \<lparr>summary = None, feedback = None, suggestions = None, segments = [],
            scores = defaultScores\<rparr> \<and>
   Parser_run JSON_parse_sample ''not json'' [defaultScores]
     = (Inr \<lparr>summary = None, feedback = None, suggestions = None, segments = [],
             scores = defaultScores\<rparr>, [defaultScores, defaultScores]) \<and>
   Parser JSON_parse_sample sample_rawText = Inr (Parser_texts sample_summary sample_detail)"
proof -
  have n: "JSON_parse_sample ''not json'' = None" by code_simp
  have m: "module_loaded [defaultScores]" by (simp add: module_loaded_def defaultScores_ref_def)
  have p: "JSON_parse_sample sample_rawText
             = Some (JObj [(''summaryAnalysis'', JStr sample_summary), (''detailedFeedback'', JStr sample_detail)])"
    by (simp add: JSON_parse_sample_def sample_parsed_def)
  from invalid_json_default_result[of JSON_parse_sample "''not json''" "[defaultScores]"]
    invalid_json_default_result[of JSON_parse_sample sample_rawText _ sample_summary sample_detail]
    n m p
  show ?thesis by simp
qed


end
